theory Spec2Isabelle
  imports
    Main
    "HOL-Library.Char_ord"
    "HOL-Library.List_Lexorder"
    "HOL-Library.Log_Nat"
    "HOL-Library.Sublist"
begin

section \<open>BlockchainService: data model\<close>

text \<open>
  The embedding follows \<^verbatim>\<open>src/app/service/BlockchainService.js\<close>.
  JavaScript numbers that hold block heights, counts and times are integers in every
  use the service makes of them and are modelled by \<^typ>\<open>int\<close> (exact below \<open>2^53\<close>).
  Hashes and public keys are ASCII strings; \<^typ>\<open>string\<close> with the lexicographic
  order on character codes is the order JavaScript's \<^verbatim>\<open><\<close> and \<^verbatim>\<open>></\<close> use on them.
  Thrown values are kept as the message the source throws.
\<close>

datatype error = Err string | TypeError

definition ErrPreviousNotFound :: error where
  "ErrPreviousNotFound = Err ''Previous block not found''"

definition ErrRootWithoutMembers :: error where
  "ErrRootWithoutMembers = Err ''Wrong new block: cannot make a root block without members''"

text \<open>
  The value of a JavaScript number where the service computes with non-integers
  (the dividend): an IEEE-754 double is a rational, an infinity or NaN.
  The sign of zero is not represented.
\<close>

datatype jsnum = NaN | NegInf | Fin rat | PosInf

record block =
  version :: int
  currency :: string
  number :: int
  parameters :: string
  hash :: string
  previousHash :: string
  previousIssuer :: string
  issuer :: string
  identities :: "string list"
  joiners :: "string list"
  actives :: "string list"
  leavers :: "string list"
  excluded :: "string list"
  membersCount :: int
  certifications :: "string list"
  transactions :: "string list"
  powMin :: int
  medianTime :: int
  nonce :: int
  monetaryMass :: "int option"
  dividend :: "jsnum option"
  UDTime :: "int option"

text \<open>
  A core is the object \<^verbatim>\<open>forkAndAddCore\<close> builds: the three fork-point fields laid over a
  blockchain context on a forked DAL. Of the context the model keeps what
  \<^verbatim>\<open>core.current()\<close> returns, the block the core was created for.
\<close>

record core =
  forkPointNumber :: int
  forkPointHash :: string
  forkPointPreviousHash :: string
  coreCurrent :: block

section \<open>The underscore functions the service calls\<close>

text \<open>
  \<^verbatim>\<open>_.max(list, iteratee)\<close> keeps the first element whose computed value is strictly greater
  than all before it; on an empty list it returns \<^verbatim>\<open>-Infinity\<close>, here \<open>None\<close>.
\<close>

fun underscore_max :: "('a \<Rightarrow> int) \<Rightarrow> 'a list \<Rightarrow> 'a option" where
  "underscore_max f [] = None"
| "underscore_max f (x # xs) = Some (fold (\<lambda>v r. if f r < f v then v else r) xs x)"

text \<open>\<^verbatim>\<open>_.sortBy\<close> is a stable sort on the computed key, as \<^const>\<open>sort_key\<close> is.\<close>

definition sortBy :: "('a \<Rightarrow> 'k::linorder) \<Rightarrow> 'a list \<Rightarrow> 'a list" where
  "sortBy f xs = sort_key f xs"

text \<open>\<^verbatim>\<open>_.findWhere(cores, {forkPointNumber: n, forkPointHash: h})\<close>: the first match or undefined.\<close>

definition getCore :: "core list \<Rightarrow> int \<Rightarrow> string \<Rightarrow> core option" where
  "getCore cores n h = find (\<lambda>c. forkPointNumber c = n \<and> forkPointHash c = h) cores"

section \<open>Main-fork election\<close>

text \<open>
  \<^verbatim>\<open>getMainFork\<close>, lines 97-102. On an empty list \<^verbatim>\<open>maxNumber\<close> is undefined, no core is
  selected and the function returns \<^verbatim>\<open>highestCores[-1]\<close>, which is undefined.
\<close>

definition getMainFork :: "core list \<Rightarrow> core option" where
  "getMainFork cores =
     (case underscore_max forkPointNumber cores of
        None \<Rightarrow> None
      | Some m \<Rightarrow>
          (let maxNumber = forkPointNumber m;
               highestCores = filter (\<lambda>c. forkPointNumber c = maxNumber) cores;
               highestCores = sortBy forkPointHash highestCores
           in if highestCores = [] then None else Some (last highestCores)))"

section \<open>Iterated checking of newcomers\<close>

text \<open>
  \<^verbatim>\<open>iteratedChecking\<close>, lines 505-532. The check is called with the newcomers accepted so far
  plus the candidate, and answers with an error (\<open>Some\<close>) or none. One pass is the
  \<^verbatim>\<open>async.forEachSeries\<close> loop over the state \<^verbatim>\<open>(passingNewcomers, hadError)\<close>.
\<close>

fun checkingPass :: "('a list \<Rightarrow> 'e option) \<Rightarrow> 'a list \<Rightarrow> 'a list \<times> bool \<Rightarrow> 'a list \<times> bool" where
  "checkingPass checkWoTForNewcomers [] s = s"
| "checkingPass checkWoTForNewcomers (newcomer # rest) (passingNewcomers, hadError) =
     (case checkWoTForNewcomers (passingNewcomers @ [newcomer]) of
        None \<Rightarrow> checkingPass checkWoTForNewcomers rest (passingNewcomers @ [newcomer], hadError)
      | Some err \<Rightarrow> checkingPass checkWoTForNewcomers rest (passingNewcomers, True))"

lemma checkingPass_length:
  "length (fst (checkingPass chk ns (p, e))) \<le> length p + length ns"
proof (induction ns arbitrary: p e)
  case Nil
  show ?case by simp
next
  case (Cons n ns)
  show ?case
  proof (cases "chk (p @ [n])")
    case None
    with Cons.IH [of "p @ [n]" e] show ?thesis by simp
  next
    case (Some err)
    with Cons.IH [of p True] show ?thesis by simp
  qed
qed

lemma checkingPass_rejects_shrinks:
  "snd (checkingPass chk ns (p, e)) \<Longrightarrow> \<not> e \<Longrightarrow>
     length (fst (checkingPass chk ns (p, e))) < length p + length ns"
proof (induction ns arbitrary: p)
  case Nil
  then show ?case by simp
next
  case (Cons n ns)
  show ?case
  proof (cases "chk (p @ [n])")
    case None
    with Cons.IH [of "p @ [n]"] Cons.prems show ?thesis by simp
  next
    case (Some err)
    with checkingPass_length [of chk ns p True] show ?thesis by simp
  qed
qed

function iteratedChecking :: "('a list \<Rightarrow> 'e option) \<Rightarrow> 'a list \<Rightarrow> 'a list" where
  "iteratedChecking checkWoTForNewcomers newcomers =
     (case checkingPass checkWoTForNewcomers newcomers ([], False) of
        (passingNewcomers, hadError) \<Rightarrow>
          if hadError then iteratedChecking checkWoTForNewcomers passingNewcomers
          else passingNewcomers)"
  by pat_completeness auto
termination
  apply (relation "measure (\<lambda>(chk, ns). length ns)")
   apply simp
  subgoal premises prems for chk newcomers x passing
    using prems checkingPass_rejects_shrinks [of chk newcomers "[]" False]
    by (cases "checkingPass chk newcomers ([], False)") simp
  done

declare iteratedChecking.simps [simp del]


section \<open>JavaScript numbers\<close>

text \<open>
  \<open>fl\<close> rounds an exact rational to the nearest IEEE-754 double (53-bit significand,
  ties to even, subnormals from \<open>2^-1074\<close>, overflow to an infinity), which is what
  every JavaScript arithmetic operation does to its exact result. With \<open>m\<close> the rounded
  significand and \<open>e\<close> its exponent, the rounded value \<open>m * 2^e\<close> reaches \<open>2^1024\<close>, and
  overflows, exactly when \<open>m\<close> has at least \<open>1025 - e\<close> binary digits.
\<close>

definition round_half_even :: "rat \<Rightarrow> int" where
  "round_half_even x =
     (let f = \<lfloor>x\<rfloor>; d = x - of_int f
      in if d < 1 / 2 then f else if 1 / 2 < d then f + 1 else if even f then f else f + 1)"

text \<open>\<open>floor_log2 x\<close> is \<open>\<lfloor>log\<^sub>2 x\<rfloor>\<close> for a positive rational \<open>x\<close>.\<close>

definition floor_log2 :: "rat \<Rightarrow> int" where
  "floor_log2 x =
     (case quotient_of x of
        (p, q) \<Rightarrow> (let k = bitlen p - bitlen q in if 2 powi k \<le> x then k else k - 1))"

definition fl :: "rat \<Rightarrow> jsnum" where
  "fl x =
     (if x = 0 then Fin 0
      else
        (let e = max (floor_log2 \<bar>x\<bar> - 52) (- 1074);
             m = round_half_even (\<bar>x\<bar> / 2 powi e)
         in if 1025 \<le> bitlen m + e then (if 0 < x then PosInf else NegInf)
            else Fin (sgn x * (of_int m * 2 powi e))))"

text \<open>\<^verbatim>\<open>a * b\<close>\<close>

fun js_mul :: "jsnum \<Rightarrow> jsnum \<Rightarrow> jsnum" where
  "js_mul (Fin a) (Fin b) = fl (a * b)"
| "js_mul NaN _ = NaN"
| "js_mul _ NaN = NaN"
| "js_mul (Fin a) PosInf = (if a = 0 then NaN else if 0 < a then PosInf else NegInf)"
| "js_mul (Fin a) NegInf = (if a = 0 then NaN else if 0 < a then NegInf else PosInf)"
| "js_mul PosInf (Fin b) = (if b = 0 then NaN else if 0 < b then PosInf else NegInf)"
| "js_mul NegInf (Fin b) = (if b = 0 then NaN else if 0 < b then NegInf else PosInf)"
| "js_mul PosInf PosInf = PosInf"
| "js_mul NegInf NegInf = PosInf"
| "js_mul PosInf NegInf = NegInf"
| "js_mul NegInf PosInf = NegInf"

text \<open>\<^verbatim>\<open>a / b\<close>; a zero divisor is the positive zero, as an integer count is.\<close>

fun js_div :: "jsnum \<Rightarrow> jsnum \<Rightarrow> jsnum" where
  "js_div (Fin a) (Fin b) =
     (if b = 0 then (if a = 0 then NaN else if 0 < a then PosInf else NegInf)
      else fl (a / b))"
| "js_div NaN _ = NaN"
| "js_div _ NaN = NaN"
| "js_div (Fin a) PosInf = Fin 0"
| "js_div (Fin a) NegInf = Fin 0"
| "js_div PosInf (Fin b) = (if 0 \<le> b then PosInf else NegInf)"
| "js_div NegInf (Fin b) = (if 0 \<le> b then NegInf else PosInf)"
| "js_div PosInf PosInf = NaN"
| "js_div NegInf NegInf = NaN"
| "js_div PosInf NegInf = NaN"
| "js_div NegInf PosInf = NaN"

text \<open>\<^verbatim>\<open>Math.max(a, b)\<close>: NaN if either argument is NaN.\<close>

fun js_max :: "jsnum \<Rightarrow> jsnum \<Rightarrow> jsnum" where
  "js_max NaN _ = NaN"
| "js_max _ NaN = NaN"
| "js_max PosInf _ = PosInf"
| "js_max _ PosInf = PosInf"
| "js_max NegInf b = b"
| "js_max a NegInf = a"
| "js_max (Fin a) (Fin b) = Fin (max a b)"

text \<open>\<^verbatim>\<open>Math.ceil(a)\<close>\<close>

fun js_ceil :: "jsnum \<Rightarrow> jsnum" where
  "js_ceil (Fin a) = Fin (of_int \<lceil>a\<rceil>)"
| "js_ceil a = a"


section \<open>Block assembly\<close>

text \<open>
  The entities of \<^verbatim>\<open>lib/entity\<close>, with the fields the service reads. A JavaScript object used
  as a dictionary (\<^verbatim>\<open>joinData\<close>, \<^verbatim>\<open>leaveData\<close>, \<^verbatim>\<open>updates\<close>) is an association list in
  insertion order, which is the order \<^verbatim>\<open>_.keys\<close> enumerates public keys in.
\<close>

record identity =
  pubkey :: string
  uid :: string
  member :: bool
  wasMember :: bool
  currentMSN :: int

record membership =
  ms_issuer :: string
  ms_userid :: string
  ms_number :: int

record certification =
  cert_from :: string
  cert_to :: string
  block_number :: int

record join =
  j_identity :: identity
  j_ms :: membership
  j_certs :: "certification list"

record leave =
  l_identity :: identity
  l_ms :: membership

record tx =
  tx_hash :: string
  tx_raw :: string

type_synonym 'v obj = "(string \<times> 'v) list"

text \<open>\<^verbatim>\<open>delete ob[k]\<close>\<close>

definition obj_delete :: "string \<Rightarrow> 'v obj \<Rightarrow> 'v obj" where
  "obj_delete k ob = filter (\<lambda>kv. fst kv \<noteq> k) ob"

text \<open>\<^verbatim>\<open>_(ob).keys()\<close>\<close>

definition obj_keys :: "'v obj \<Rightarrow> string list" where
  "obj_keys ob = map fst ob"

record conf =
  conf_currency :: string
  conf_c :: rat
  conf_dt :: int
  conf_ud0 :: int
  conf_sigDelay :: int
  conf_sigValidity :: int
  conf_sigQty :: int
  conf_sigWoT :: int
  conf_msValidity :: int
  conf_stepMax :: int
  conf_medianTimeBlocks :: int
  conf_avgGenTime :: int
  conf_dtDiffEval :: int
  conf_blocksRot :: int
  conf_percentRot :: rat
  conf_rootoffset :: int
  conf_branchesWindowSize :: int
  conf_participate :: bool

text \<open>
  What block assembly takes from outside this file: the inline forms of the entities
  (\<^verbatim>\<open>lib/entity\<close>), the text of a number, the global validator's \<^verbatim>\<open>getPoWMin\<close> and
  \<^verbatim>\<open>getMedianTime\<close> for the block under construction, the DAL's \<^verbatim>\<open>getBlockOrNull\<close>
  and the clock (\<^verbatim>\<open>moment.utc().unix()\<close>).
\<close>

record assembly_env =
  inlineIdentity :: "identity \<Rightarrow> string"
  inlineMembership :: "membership \<Rightarrow> string"
  inlineCertification :: "certification \<Rightarrow> string"
  compact :: "tx \<Rightarrow> string"
  showNumber :: "rat \<Rightarrow> string"
  getPoWMin :: "block \<Rightarrow> error + int"
  getMedianTime :: "block \<Rightarrow> error + int"
  getBlockOrNull :: "int \<Rightarrow> block option"
  utcNow :: int

text \<open>\<^verbatim>\<open>new Block()\<close>: no field is set yet.\<close>

definition newBlock :: block where
  "newBlock = \<lparr> version = 0, currency = [], number = 0, parameters = [], hash = [],
     previousHash = [], previousIssuer = [], issuer = [], identities = [], joiners = [],
     actives = [], leavers = [], excluded = [], membersCount = 0, certifications = [],
     transactions = [], powMin = 0, medianTime = 0, nonce = 0, monetaryMass = None,
     dividend = None, UDTime = None \<rparr>"

fun joinWith :: "string \<Rightarrow> string list \<Rightarrow> string" where
  "joinWith sep [] = []"
| "joinWith sep [x] = x"
| "joinWith sep (x # y # ys) = x @ sep @ joinWith sep (y # ys)"

definition parametersLine :: "assembly_env \<Rightarrow> conf \<Rightarrow> string" where
  "parametersLine env cnf =
     joinWith '':''
       [showNumber env (conf_c cnf), showNumber env (of_int (conf_dt cnf)),
        showNumber env (of_int (conf_ud0 cnf)),
        showNumber env (of_int (conf_sigDelay cnf)), showNumber env (of_int (conf_sigValidity cnf)),
        showNumber env (of_int (conf_sigQty cnf)), showNumber env (of_int (conf_sigWoT cnf)),
        showNumber env (of_int (conf_msValidity cnf)),
        showNumber env (of_int (conf_stepMax cnf)), showNumber env (of_int (conf_medianTimeBlocks cnf)),
        showNumber env (of_int (conf_avgGenTime cnf)), showNumber env (of_int (conf_dtDiffEval cnf)),
        showNumber env (of_int (conf_blocksRot cnf)),
        (if conf_percentRot cnf = 1 then ''1.0'' else showNumber env (conf_percentRot cnf))]"

text \<open>
  Lines 1074-1083: no join, update or leave is written for an excluded member, and no join or
  update for a leaver.
\<close>

definition withoutExcluded :: "string list \<Rightarrow> 'v obj \<Rightarrow> 'v obj" where
  "withoutExcluded exclusions ob = fold obj_delete exclusions ob"

definition keptLeaveData :: "string list \<Rightarrow> leave obj \<Rightarrow> leave obj" where
  "keptLeaveData exclusions leaveData = withoutExcluded exclusions leaveData"

definition keptJoinData :: "string list \<Rightarrow> leave obj \<Rightarrow> join obj \<Rightarrow> join obj" where
  "keptJoinData exclusions leaveData joinData =
     fold obj_delete (obj_keys (keptLeaveData exclusions leaveData))
       (withoutExcluded exclusions joinData)"

definition keptUpdates ::
  "string list \<Rightarrow> leave obj \<Rightarrow> (certification list) obj \<Rightarrow> (certification list) obj" where
  "keptUpdates exclusions leaveData updates =
     fold obj_delete (obj_keys (keptLeaveData exclusions leaveData))
       (withoutExcluded exclusions updates)"

text \<open>
  The truth value of a number that may be missing, as in
  \<^verbatim>\<open>lastUDBlock && lastUDBlock.UDTime\<close>: undefined, null and \<open>0\<close> are falsy.
\<close>

definition truthy :: "int option \<Rightarrow> bool" where
  "truthy t = (case t of None \<Rightarrow> False | Some v \<Rightarrow> v \<noteq> 0)"

text \<open>Lines 1175-1179: the time of the last dividend, else that of the root block.\<close>

definition lastUDTimeOf :: "assembly_env \<Rightarrow> block option \<Rightarrow> int option" where
  "lastUDTimeOf env lastUDBlock =
     (let lastUDTime = (case lastUDBlock of None \<Rightarrow> None | Some b \<Rightarrow> UDTime b)
      in if \<not> truthy lastUDTime
         then (case getBlockOrNull env 0 of None \<Rightarrow> None | Some rootBlock \<Rightarrow> UDTime rootBlock)
         else lastUDTime)"

text \<open>Line 1186, with \<^verbatim>\<open>M\<close>, \<^verbatim>\<open>c\<close>, \<^verbatim>\<open>N\<close> and \<^verbatim>\<open>previousUD\<close> of lines 1182-1185.\<close>

definition dividendValue :: "jsnum \<Rightarrow> jsnum \<Rightarrow> jsnum \<Rightarrow> jsnum \<Rightarrow> jsnum" where
  "dividendValue previousUD c M N = js_ceil (js_max previousUD (js_div (js_mul c M) N))"

text \<open>
  Lines 1174-1188. A last dividend block that carries no dividend gives \<^verbatim>\<open>Math.max\<close> an
  undefined argument, hence NaN.
\<close>

definition universalDividend ::
  "conf \<Rightarrow> assembly_env \<Rightarrow> block option \<Rightarrow> block option \<Rightarrow> block \<Rightarrow> block" where
  "universalDividend cnf env current lastUDBlock blk =
     (case lastUDTimeOf env lastUDBlock of
        None \<Rightarrow> blk
      | Some lastUDTime \<Rightarrow>
          (case current of
             None \<Rightarrow> blk
           | Some cur \<Rightarrow>
               if lastUDTime + conf_dt cnf \<le> medianTime blk then
                 (let M = (case monetaryMass cur of None \<Rightarrow> 0 | Some mass \<Rightarrow> mass);
                      c = conf_c cnf;
                      N = membersCount blk;
                      previousUD = (case lastUDBlock of
                                      Some ud \<Rightarrow> (case dividend ud of None \<Rightarrow> NaN | Some d \<Rightarrow> d)
                                    | None \<Rightarrow> fl (of_int (conf_ud0 cnf)))
                  in blk\<lparr>dividend := Some (dividendValue previousUD (fl c) (fl (of_int M)) (fl (of_int N)))\<rparr>)
               else blk))"

text \<open>
  \<^verbatim>\<open>createBlock\<close>, lines 1073-1191. \<^verbatim>\<open>selfPubkey\<close> is the node's key; the block's issuer is set
  only when it is a non-empty string.
\<close>

definition createBlock ::
  "conf \<Rightarrow> string \<Rightarrow> assembly_env \<Rightarrow> block option \<Rightarrow> join obj \<Rightarrow> leave obj
     \<Rightarrow> (certification list) obj \<Rightarrow> string list \<Rightarrow> block option \<Rightarrow> tx list \<Rightarrow> error + block" where
  "createBlock cnf selfPubkey env current joinData0 leaveData0 updates0 exclusions lastUDBlock txs =
     (let updates = keptUpdates exclusions leaveData0 updates0;
          joinData = keptJoinData exclusions leaveData0 joinData0;
          leaveData = keptLeaveData exclusions leaveData0;
          blk = newBlock;
          blk = blk\<lparr>version := 1\<rparr>;
          blk = blk\<lparr>currency := (case current of Some cur \<Rightarrow> currency cur | None \<Rightarrow> conf_currency cnf)\<rparr>;
          blk = blk\<lparr>number := (case current of Some cur \<Rightarrow> number cur + 1 | None \<Rightarrow> 0)\<rparr>;
          blk = blk\<lparr>parameters := (if 0 < number blk then [] else parametersLine env cnf)\<rparr>;
          blk = blk\<lparr>previousHash := (case current of Some cur \<Rightarrow> hash cur | None \<Rightarrow> [])\<rparr>;
          blk = blk\<lparr>previousIssuer := (case current of Some cur \<Rightarrow> issuer cur | None \<Rightarrow> [])\<rparr>;
          blk = (if selfPubkey \<noteq> [] then blk\<lparr>issuer := selfPubkey\<rparr> else blk);
          joinerKeys = obj_keys joinData;
          previousCount = (case current of Some cur \<Rightarrow> membersCount cur | None \<Rightarrow> 0)
      in if joinerKeys = [] \<and> current = None then Inl ErrRootWithoutMembers
         else
          (let blk = blk\<lparr>identities :=
                      map (\<lambda>kv. inlineIdentity env (j_identity (snd kv)))
                        (filter (\<lambda>kv. \<not> member (j_identity (snd kv)) \<and> \<not> wasMember (j_identity (snd kv)))
                           joinData)\<rparr>;
               blk = blk\<lparr>joiners :=
                      map (\<lambda>kv. inlineMembership env (j_ms (snd kv)))
                        (filter (\<lambda>kv. \<not> member (j_identity (snd kv))) joinData)\<rparr>;
               blk = blk\<lparr>actives :=
                      map (\<lambda>kv. inlineMembership env (j_ms (snd kv)))
                        (filter (\<lambda>kv. member (j_identity (snd kv))) joinData)\<rparr>;
               blk = blk\<lparr>leavers :=
                      map (\<lambda>kv. inlineMembership env (l_ms (snd kv)))
                        (filter (\<lambda>kv. member (l_identity (snd kv))) leaveData)\<rparr>;
               blk = blk\<lparr>excluded := exclusions\<rparr>;
               blk = blk\<lparr>membersCount :=
                      previousCount + int (length (joiners blk)) - int (length (excluded blk))\<rparr>;
               blk = blk\<lparr>certifications :=
                      concat (map (\<lambda>kv. map (inlineCertification env) (j_certs (snd kv))) joinData)
                      @ concat (map (\<lambda>kv. map (inlineCertification env) (snd kv)) updates)\<rparr>;
               blk = blk\<lparr>transactions := map (compact env) txs\<rparr>
           in case (if number blk = 0 then Inr 0 else getPoWMin env blk) of
                Inl e \<Rightarrow> Inl e
              | Inr pm \<Rightarrow>
                  (let blk = blk\<lparr>powMin := pm\<rparr>
                   in case (if number blk = 0 then Inr (utcNow env - conf_rootoffset cnf)
                            else getMedianTime env blk) of
                        Inl e \<Rightarrow> Inl e
                      | Inr mt \<Rightarrow>
                          Inr (universalDividend cnf env current lastUDBlock
                                 (blk\<lparr>medianTime := mt\<rparr>)))))"

text \<open>
  \<^verbatim>\<open>prepareNextBlock\<close> reads the current block, the last dividend block and the keys to be
  kicked from the DAL; \<^verbatim>\<open>generateEmptyNextBlock\<close> (lines 599-612) assembles on them with no
  join, leave, update or transaction.
\<close>

definition generateEmptyNextBlock ::
  "conf \<Rightarrow> string \<Rightarrow> assembly_env \<Rightarrow> block option \<Rightarrow> block option \<Rightarrow> string list \<Rightarrow> error + block" where
  "generateEmptyNextBlock cnf selfPubkey env current lastUDBlock exclusions =
     createBlock cnf selfPubkey env current [] [] [] exclusions lastUDBlock []"

text \<open>
  \<^verbatim>\<open>generateNextBlock\<close>, lines 552-594, from the point where the three searches have answered:
  \<^verbatim>\<open>newCertsFromWoT\<close>, the join and leave data and the certifications of the newcomers
  (\<^verbatim>\<open>newcomersLeavers[2..4]\<close>), and the transactions. A certification between members is
  dropped when its issuer already certifies in this block.
\<close>

fun filterCerts :: "string list \<Rightarrow> certification list \<Rightarrow> certification list \<times> string list" where
  "filterCerts certifiers [] = ([], certifiers)"
| "filterCerts certifiers (cert # rest) =
     (if cert_from cert \<in> set certifiers then filterCerts certifiers rest
      else (case filterCerts (certifiers @ [cert_from cert]) rest of
              (kept, certifiers') \<Rightarrow> (cert # kept, certifiers')))"

fun mergeUpdates ::
  "string list \<Rightarrow> (certification list) obj \<Rightarrow> (certification list) obj" where
  "mergeUpdates certifiers [] = []"
| "mergeUpdates certifiers ((certified, certs) # rest) =
     (case filterCerts certifiers certs of
        (kept, certifiers') \<Rightarrow> (certified, kept) # mergeUpdates certifiers' rest)"

text \<open>\<^verbatim>\<open>ob[k] = (ob[k] || []).concat(v)\<close>: an existing key keeps its place, a new one goes last.\<close>

fun obj_concat :: "string \<Rightarrow> 'a list \<Rightarrow> ('a list) obj \<Rightarrow> ('a list) obj" where
  "obj_concat k v [] = [(k, v)]"
| "obj_concat k v ((k', w) # rest) =
     (if k' = k then (k', w @ v) # rest else (k', w) # obj_concat k v rest)"

definition generateNextBlock ::
  "conf \<Rightarrow> string \<Rightarrow> assembly_env \<Rightarrow> block option \<Rightarrow> block option \<Rightarrow> string list
     \<Rightarrow> (certification list) obj \<Rightarrow> join obj \<Rightarrow> leave obj \<Rightarrow> (certification list) obj
     \<Rightarrow> tx list \<Rightarrow> error + block" where
  "generateNextBlock cnf selfPubkey env current lastUDBlock exclusions
       newCertsFromWoT joinData leaveData newCertsFromNewcomers txs =
     (let certifiersOfNewcomers =
            remdups (concat (map (\<lambda>kv. map cert_from (j_certs (snd kv))) joinData));
          merged = mergeUpdates certifiersOfNewcomers newCertsFromWoT;
          merged = fold (\<lambda>kv acc. obj_concat (fst kv) (snd kv) acc) newCertsFromNewcomers merged
      in createBlock cnf selfPubkey env current joinData leaveData merged exclusions lastUDBlock txs)"


section \<open>Selection of transactions\<close>

text \<open>
  \<^verbatim>\<open>findTransactions\<close>, lines 629-668. The two validators (\<^verbatim>\<open>lib/localValidator\<close>,
  \<^verbatim>\<open>lib/globalValidator\<close>) answer with an error or none. The state of the loop is the list
  of accepted transactions (\<^verbatim>\<open>transactions\<close> and \<^verbatim>\<open>passingTxs\<close> hold the same transactions,
  as entity and as extracted object) and the DAL's pool of pending transactions.
  \<^verbatim>\<open>dal.removeTxByHash\<close> (line 656; the DAL is not in this file) is the parameter
  \<open>removeTx\<close>: given the pool and a hash it answers with the pool it leaves, or with an error,
  which \<^verbatim>\<open>.catch(callback)\<close> hands to \<^verbatim>\<open>async.forEachSeries\<close>: the iteration stops and line 664
  rejects.
\<close>

record tx_validation =
  checkBunchOfTransactions :: "tx list \<Rightarrow> error option"
  checkSingleTransaction :: "tx \<Rightarrow> error option"

text \<open>The \<^verbatim>\<open>async.waterfall\<close> of lines 641-652: the first error, if any.\<close>

definition validateTx :: "tx_validation \<Rightarrow> tx list \<Rightarrow> tx \<Rightarrow> error option" where
  "validateTx v passingTxs extractedTX =
     (case checkBunchOfTransactions v (passingTxs @ [extractedTX]) of
        Some err \<Rightarrow> Some err
      | None \<Rightarrow> checkSingleTransaction v extractedTX)"

fun txLoop ::
  "tx_validation \<Rightarrow> (tx list \<Rightarrow> string \<Rightarrow> error + tx list) \<Rightarrow> tx list
     \<Rightarrow> tx list \<times> tx list \<Rightarrow> error + tx list \<times> tx list" where
  "txLoop v removeTx [] s = Inr s"
| "txLoop v removeTx (rawtx # rest) (passingTxs, pool) =
     (case validateTx v passingTxs rawtx of
        None \<Rightarrow> txLoop v removeTx rest (passingTxs @ [rawtx], pool)
      | Some err \<Rightarrow>
          (case removeTx pool (tx_hash rawtx) of
             Inl err' \<Rightarrow> Inl err'
           | Inr pool' \<Rightarrow> txLoop v removeTx rest (passingTxs, pool')))"

definition findTransactions ::
  "tx_validation \<Rightarrow> (tx list \<Rightarrow> string \<Rightarrow> error + tx list) \<Rightarrow> tx list
     \<Rightarrow> error + tx list \<times> tx list" where
  "findTransactions v removeTx pool = txLoop v removeTx pool ([], pool)"

section \<open>Fork management\<close>

text \<open>
  The state the fork manager works on: the array \<^verbatim>\<open>cores\<close> that \<^verbatim>\<open>getCores\<close> hands to every
  submission, and the confirmed chain held by \<^verbatim>\<open>mainDAL\<close>, its tip last.
  A blockchain context (\<^verbatim>\<open>lib/blockchainContext\<close>) is the main one or that of a core; its
  \<^verbatim>\<open>checkBlock\<close> and \<^verbatim>\<open>addBlock\<close> are taken as they come, and may depend on the whole state.
\<close>

datatype ctx_ref = MainContext | CoreContext core

record fm_state =
  st_cores :: "core list"
  st_chain :: "block list"

record ctx_ops =
  checkBlock :: "ctx_ref \<Rightarrow> fm_state \<Rightarrow> block \<Rightarrow> error option"
  addBlock :: "ctx_ref \<Rightarrow> fm_state \<Rightarrow> block \<Rightarrow> bool \<Rightarrow> error + block"

text \<open>\<^verbatim>\<open>mainDAL.getCurrentBlockOrNull()\<close>\<close>

definition getCurrentBlockOrNull :: "fm_state \<Rightarrow> block option" where
  "getCurrentBlockOrNull st = (if st_chain st = [] then None else Some (last (st_chain st)))"

text \<open>
  \<^verbatim>\<open>forkAndAddCore\<close>, lines 375-402: the block is added in a context forked from the one it
  is based upon, then the core is registered and pushed to \<^verbatim>\<open>cores\<close>.
\<close>

definition forkAndAddCore ::
  "ctx_ops \<Rightarrow> ctx_ref \<Rightarrow> fm_state \<Rightarrow> block \<Rightarrow> error + block \<times> fm_state" where
  "forkAndAddCore ops basedCore st obj =
     (case addBlock ops basedCore st obj False of
        Inl err \<Rightarrow> Inl err
      | Inr blk \<Rightarrow>
          Inr (blk, st\<lparr>st_cores := st_cores st @
                 [\<lparr> forkPointNumber = number obj, forkPointHash = hash obj,
                    forkPointPreviousHash = previousHash obj, coreCurrent = blk \<rparr>]\<rparr>))"

text \<open>
  \<^verbatim>\<open>pruneForks\<close>, lines 367-373. The function assigns \<^verbatim>\<open>_.without(cores, orphan)\<close> to its own
  parameter, calls no DAL operation and its promise is dropped by \<^verbatim>\<open>.tap\<close>: all that is
  left of a call is the orphans it went through, which the model returns in the order of
  the visit. The orphan at index \<open>i\<close> is visited with the orphans up to \<open>i\<close> taken out of the
  local list.
\<close>

definition isOrphanOf :: "core \<Rightarrow> core \<Rightarrow> bool" where
  "isOrphanOf deleted c \<longleftrightarrow>
     forkPointNumber c = forkPointNumber deleted + 1
     \<and> forkPointPreviousHash c \<noteq> forkPointHash deleted"

definition without :: "'a list \<Rightarrow> 'a list \<Rightarrow> 'a list" where
  "without xs gone = filter (\<lambda>x. x \<notin> set gone) xs"

lemma without_shorter:
  "i < length (filter P xs) \<Longrightarrow>
     length (without xs (take (Suc i) (filter P xs))) < length xs"
proof -
  assume i: "i < length (filter P xs)"
  then have "filter P xs ! i \<in> set (take (Suc i) (filter P xs))"
    by (simp add: in_set_conv_nth) (metis lessI min_less_iff_conj nth_take)
  moreover from i have "filter P xs ! i \<in> set xs"
    using nth_mem [of i "filter P xs"] by simp
  ultimately show ?thesis
    unfolding without_def by (intro length_filter_less [of "filter P xs ! i"]) simp_all
qed

function pruneForks :: "core \<Rightarrow> core list \<Rightarrow> core list" where
  "pruneForks deleted cores =
     (let orphans = filter (isOrphanOf deleted) cores
      in concat (map (\<lambda>i. orphans ! i # pruneForks (orphans ! i) (without cores (take (Suc i) orphans)))
                   [0..<length orphans]))"
  by pat_completeness auto
termination
  by (relation "measure (\<lambda>(deleted, cores). length cores)") (auto simp: without_shorter)

declare pruneForks.simps [simp del]

text \<open>\<^verbatim>\<open>bindUnboundsToMainDAL\<close>, lines 359-365: the cores whose DAL is set on \<^verbatim>\<open>mainDAL\<close>.\<close>

definition bindUnboundsToMainDAL :: "core \<Rightarrow> core list \<Rightarrow> core list" where
  "bindUnboundsToMainDAL deleted cores =
     filter (\<lambda>c. forkPointNumber c = forkPointNumber deleted + 1
                \<and> forkPointPreviousHash c = forkPointHash deleted) cores"

text \<open>
  \<^verbatim>\<open>startPruning\<close>, lines 258-357. \<^verbatim>\<open>distanceFromMain\<close> is \<^verbatim>\<open>current && ...\<close>, and
  \<^verbatim>\<open>distanceFromMain || distanceFromVoid\<close> takes the second operand when the first is null
  or zero.
\<close>

definition branchSize :: "core \<Rightarrow> block option \<Rightarrow> int" where
  "branchSize highest current =
     (let distanceFromMain = map_option (\<lambda>cur. forkPointNumber highest - number cur) current;
          distanceFromVoid = forkPointNumber highest + 1
      in case distanceFromMain of
           None \<Rightarrow> distanceFromVoid
         | Some d \<Rightarrow> if d \<noteq> 0 then d else distanceFromVoid)"

definition toPruneCount :: "core \<Rightarrow> block option \<Rightarrow> int \<Rightarrow> int" where
  "toPruneCount highest current forkWindowSize = max 0 (branchSize highest current - forkWindowSize)"

text \<open>
  The loop of lines 271-274, \<open>k\<close> iterations left. A parent that \<^verbatim>\<open>_.findWhere\<close> does not find
  is pushed as undefined, and the next read of its \<^verbatim>\<open>forkPointNumber\<close> (in the loop or in
  \<^verbatim>\<open>_.sortBy\<close>) throws a TypeError.
\<close>

fun collectBranch :: "core list \<Rightarrow> nat \<Rightarrow> core \<Rightarrow> core list \<Rightarrow> error + core list" where
  "collectBranch cores 0 currentTop branch = Inr branch"
| "collectBranch cores (Suc k) currentTop branch =
     (case getCore cores (forkPointNumber currentTop - 1) (forkPointPreviousHash currentTop) of
        None \<Rightarrow> Inl TypeError
      | Some parent \<Rightarrow> collectBranch cores k parent (branch @ [parent]))"

text \<open>\<^verbatim>\<open>cores.splice(cores.indexOf(core), 1)\<close>: index \<open>-1\<close> takes the last element out.\<close>

definition spliceOut :: "'a \<Rightarrow> 'a list \<Rightarrow> 'a list" where
  "spliceOut x xs = (if x \<in> set xs then remove1 x xs else butlast xs)"

text \<open>
  Lines 278-356, one core of the branch: its block goes to the confirmed chain, the core
  leaves \<^verbatim>\<open>cores\<close>, then \<^verbatim>\<open>pruneForks\<close> and \<^verbatim>\<open>bindUnboundsToMainDAL\<close> run, whose results are
  dropped. The transfers of pending data and \<^verbatim>\<open>mainDAL.unfork\<close> stay inside the DAL.
\<close>

definition promoteCore :: "ctx_ops \<Rightarrow> bool \<Rightarrow> core \<Rightarrow> fm_state \<Rightarrow> error + fm_state" where
  "promoteCore ops doCheck c st =
     (case addBlock ops MainContext st (coreCurrent c) doCheck of
        Inl err \<Rightarrow> Inl err
      | Inr blk \<Rightarrow>
          (let st' = st\<lparr>st_chain := st_chain st @ [blk], st_cores := spliceOut c (st_cores st)\<rparr>
           in (\<lambda>pruned rebound. Inr st')
                (pruneForks c (st_cores st')) (bindUnboundsToMainDAL c (st_cores st'))))"

fun promoteAll :: "ctx_ops \<Rightarrow> bool \<Rightarrow> core list \<Rightarrow> fm_state \<Rightarrow> error option \<times> fm_state" where
  "promoteAll ops doCheck [] st = (None, st)"
| "promoteAll ops doCheck (c # rest) st =
     (case promoteCore ops doCheck c st of
        Inl err \<Rightarrow> (Some err, st)
      | Inr st' \<Rightarrow> promoteAll ops doCheck rest st')"

definition startPruning ::
  "ctx_ops \<Rightarrow> core \<Rightarrow> fm_state \<Rightarrow> block option \<Rightarrow> int \<Rightarrow> bool \<Rightarrow> error option \<times> fm_state" where
  "startPruning ops highest st current forkWindowSize doCheck =
     (if toPruneCount highest current forkWindowSize = 0 then (None, st)
      else
        (case collectBranch (st_cores st) (nat (branchSize highest current - 1)) highest [highest] of
           Inl err \<Rightarrow> (Some err, st)
         | Inr branch \<Rightarrow>
             (let branch = sortBy forkPointNumber branch;
                  branch = take (nat (toPruneCount highest current forkWindowSize)) branch
              in promoteAll ops doCheck branch st)))"

text \<open>
  The step "Shift" of \<^verbatim>\<open>submitBlock\<close>, lines 223-231. With no core at all the highest core is
  undefined and \<^verbatim>\<open>startPruning\<close> throws a TypeError on it.
\<close>

definition shift :: "ctx_ops \<Rightarrow> int \<Rightarrow> fm_state \<Rightarrow> bool \<Rightarrow> error option \<times> fm_state" where
  "shift ops forkWindowSize st doCheck =
     (case underscore_max forkPointNumber (st_cores st) of
        None \<Rightarrow> (Some TypeError, st)
      | Some m \<Rightarrow>
          (let maxNumber = forkPointNumber m;
               highestCores = filter (\<lambda>c. forkPointNumber c = maxNumber) (st_cores st)
           in case highestCores of
                [] \<Rightarrow> (Some TypeError, st)
              | [highest] \<Rightarrow>
                  startPruning ops highest st (getCurrentBlockOrNull st) forkWindowSize doCheck
              | _ \<Rightarrow> (None, st)))"

text \<open>
  \<^verbatim>\<open>submitBlock\<close>, lines 174-246, as one task of \<^verbatim>\<open>blockFifo\<close>: the promise's outcome and the
  state it leaves. \<open>basedCore\<close> is the variable of line 197, undefined (\<open>None\<close>) when
  \<^verbatim>\<open>getCore\<close> finds no core. The notification of the proof-of-work that follows a success
  (\<^verbatim>\<open>stopPoWThenProcessAndRestartPoW\<close>) works on the state of the next section.
\<close>

definition basedCore :: "fm_state \<Rightarrow> block \<Rightarrow> ctx_ref option" where
  "basedCore st obj =
     (if st_cores st = [] then Some MainContext
      else map_option CoreContext (getCore (st_cores st) (number obj - 1) (previousHash obj)))"

definition submitBlock ::
  "ctx_ops \<Rightarrow> int \<Rightarrow> fm_state \<Rightarrow> block \<Rightarrow> bool \<Rightarrow> (error + block) \<times> fm_state" where
  "submitBlock ops forkWindowSize st obj doCheck =
     (let cores = st_cores st
      in case basedCore st obj of
           None \<Rightarrow> (Inl ErrPreviousNotFound, st)
         | Some based \<Rightarrow>
             (case (if doCheck then checkBlock ops based st obj else None) of
                Some err \<Rightarrow> (Inl err, st)
              | None \<Rightarrow>
                  if cores = [] \<and> forkWindowSize = 0 then
                    (case addBlock ops MainContext st obj doCheck of
                       Inl err \<Rightarrow> (Inl err, st)
                     | Inr blk \<Rightarrow> (Inr blk, st\<lparr>st_chain := st_chain st @ [blk]\<rparr>))
                  else
                    (case forkAndAddCore ops based st obj of
                       Inl err \<Rightarrow> (Inl err, st)
                     | Inr (blk, st1) \<Rightarrow>
                         (case shift ops forkWindowSize st1 doCheck of
                            (Some err, st2) \<Rightarrow> (Inl err, st2)
                          | (None, st2) \<Rightarrow> (Inr blk, st2)))))"

text \<open>
  What the step "Shift" relies on in the state it is given: the block of a core has the number
  of the core; with a confirmed tip and at least one core, some core stands above the tip; a
  core that stands more than one above the tip (above 0 without a tip) has its parent among
  the cores. Checked submissions keep this (\<open>submitAll_wellStacked\<close>).
\<close>

definition wellStacked :: "fm_state \<Rightarrow> bool" where
  "wellStacked st \<longleftrightarrow>
     (\<forall>c\<in>set (st_cores st). number (coreCurrent c) = forkPointNumber c)
   \<and> (case getCurrentBlockOrNull st of
         None \<Rightarrow> True
       | Some cur \<Rightarrow> st_cores st = [] \<or> (\<exists>c\<in>set (st_cores st). number cur < forkPointNumber c))
   \<and> (\<forall>c\<in>set (st_cores st).
         (case getCurrentBlockOrNull st of
            None \<Rightarrow> 0 < forkPointNumber c
          | Some cur \<Rightarrow> number cur + 1 < forkPointNumber c) \<longrightarrow>
         getCore (st_cores st) (forkPointNumber c - 1) (forkPointPreviousHash c) \<noteq> None)"


section \<open>Proof-of-work worker\<close>

text \<open>
  A \<^verbatim>\<open>Worker\<close> (lines 1251-1319) is a closure over \<^verbatim>\<open>stopped\<close>, \<^verbatim>\<open>speedMesured\<close>, \<^verbatim>\<open>start\<close> (here
  whether it is set), \<^verbatim>\<open>that.powProcess\<close> and the listener \<^verbatim>\<open>onPoWFound\<close>. The process is a
  running child, a killed one, or null. The listener is the initial one, which throws, or
  the one \<^verbatim>\<open>prove\<close> installs, which resolves the promise of \<^verbatim>\<open>prove\<close> with the block it is given
  or with null.
\<close>

datatype proc = Running | Killed | NoProcess

datatype listener = InitialListener | ProveListener

record worker =
  stopped :: bool
  speedMesured :: bool
  started :: bool
  powProcess :: proc
  onPoWFound :: listener

text \<open>\<^verbatim>\<open>new Worker()\<close>, lines 1253-1258: a child is forked, nothing is measured, no listener.\<close>

definition newWorker :: worker where
  "newWorker = \<lparr> stopped = True, speedMesured = False, started = False, powProcess = Running,
                 onPoWFound = InitialListener \<rparr>"

text \<open>
  The state around the workers: every \<^verbatim>\<open>Worker\<close> created so far, named by its position; the
  module variable \<^verbatim>\<open>powWorker\<close> (a position or null); \<^verbatim>\<open>cancels\<close>, whose tokens are the
  \<^verbatim>\<open>taskDone\<close> callbacks of \<^verbatim>\<open>powFifo\<close>, named by numbers; the tasks waiting in \<^verbatim>\<open>powFifo\<close>, each
  named by its \<^verbatim>\<open>taskDone\<close>, and whether a task of \<^verbatim>\<open>powFifo\<close> is running; \<^verbatim>\<open>computing\<close>; whether
  \<^verbatim>\<open>computeNextCallback\<close> is set. What is done to the outside is recorded in \<open>events\<close>, in
  order; a kill and a request name the worker whose process they reach.
\<close>

datatype pow_event =
    ProcessKilled nat
  | ProveResolved "block option"
  | CancelConfirmed nat
  | WorkerCreated nat
  | RequestSent nat block
  | ComputeNextCalled

record pow_msg =
  msg_found :: bool
  msg_testsPerRound :: "int option"
  msg_nonce :: "int option"
  msg_block :: "block option"

record pow_state =
  workers :: "worker list"
  powWorker :: "nat option"
  cancels :: "nat list"
  powFifo :: "nat list"
  powFifoRunning :: bool
  computing :: bool
  computeNextCallback :: bool
  events :: "pow_event list"

definition ErrNoListener :: error where
  "ErrNoListener = Err ''Proof-of-work found, but no listener is attached.''"

text \<open>
  \<^verbatim>\<open>powFifo\<close> is an \<^verbatim>\<open>async.queue\<close> of concurrency 1 (the library is not under \<^verbatim>\<open>src/\<close>): a pushed
  task waits; on a later turn, and whenever a task ends, the queue starts its first waiting
  task if none is running. A task of \<^verbatim>\<open>powFifo\<close> (line 410) pushes its \<^verbatim>\<open>taskDone\<close> to
  \<^verbatim>\<open>cancels\<close> and runs until that callback is called.
\<close>

definition powFifoProcess :: "pow_state \<Rightarrow> pow_state" where
  "powFifoProcess s =
     (if powFifoRunning s then s
      else (case powFifo s of
              [] \<Rightarrow> s
            | taskDone # waiting \<Rightarrow>
                s\<lparr>powFifo := waiting, powFifoRunning := True, cancels := cancels s @ [taskDone]\<rparr>))"

text \<open>A call of \<^verbatim>\<open>taskDone\<close>: the running task ends and the queue goes on.\<close>

definition taskDoneCalled :: "pow_state \<Rightarrow> pow_state" where
  "taskDoneCalled s = powFifoProcess (s\<lparr>powFifoRunning := False\<rparr>)"

text \<open>
  \<^verbatim>\<open>stopPoWThenProcessAndRestartPoW\<close>, lines 404-414: the task is pushed to \<^verbatim>\<open>powFifo\<close>; its
  token reaches \<^verbatim>\<open>cancels\<close> when the queue starts it (\<open>powFifoProcess\<close>).
\<close>

definition stopPoWThenProcessAndRestartPoW :: "bool \<Rightarrow> nat \<Rightarrow> pow_state \<Rightarrow> pow_state" where
  "stopPoWThenProcessAndRestartPoW participate taskDone s0 =
     (let s = (if computeNextCallback s0 then s0\<lparr>events := events s0 @ [ComputeNextCalled]\<rparr> else s0)
      in if participate \<and> cancels s = [] \<and> computing s
         then s\<lparr>powFifo := powFifo s @ [taskDone]\<rparr> else s)"

text \<open>
  \<^verbatim>\<open>prove\<close>, lines 1224-1249: a worker is created if \<^verbatim>\<open>powWorker\<close> is null, the listener of
  \<^verbatim>\<open>powWorker\<close> is replaced, and the request goes to its process, a TypeError if that is null.
\<close>

definition prove :: "block \<Rightarrow> int \<Rightarrow> pow_state \<Rightarrow> error option \<times> pow_state" where
  "prove blk nbZeros s0 =
     (let s = (case powWorker s0 of
                 Some i \<Rightarrow> s0
               | None \<Rightarrow> s0\<lparr>workers := workers s0 @ [newWorker],
                              powWorker := Some (length (workers s0)),
                              events := events s0 @ [WorkerCreated (length (workers s0))]\<rparr>);
          i = (case powWorker s of Some i \<Rightarrow> i | None \<Rightarrow> length (workers s0));
          blk = (if number blk = 0 then blk\<lparr>powMin := nbZeros\<rparr> else blk);
          s = s\<lparr>workers := (workers s)[i := (workers s ! i)\<lparr>onPoWFound := ProveListener\<rparr>]\<rparr>;
          blk = blk\<lparr>nonce := 0\<rparr>
      in if powProcess (workers s ! i) = NoProcess then (Some TypeError, s)
         else (None, s\<lparr>events := events s @ [RequestSent i blk]\<rparr>))"

text \<open>\<^verbatim>\<open>onPoWFound(err, powBlock)\<close> of the worker at position \<open>i\<close>.\<close>

definition callOnPoWFound :: "nat \<Rightarrow> block option \<Rightarrow> pow_state \<Rightarrow> error + pow_state" where
  "callOnPoWFound i powBlock s =
     (case onPoWFound (workers s ! i) of
        InitialListener \<Rightarrow> Inl ErrNoListener
      | ProveListener \<Rightarrow> Inr (s\<lparr>events := events s @ [ProveResolved powBlock]\<rparr>))"

text \<open>\<^verbatim>\<open>that.powProcess.kill()\<close>, a TypeError when \<^verbatim>\<open>that.powProcess\<close> is null.\<close>

definition killProcess :: "nat \<Rightarrow> pow_state \<Rightarrow> error + pow_state" where
  "killProcess i s =
     (if powProcess (workers s ! i) = NoProcess then Inl TypeError
      else Inr (s\<lparr>workers := (workers s)[i := (workers s ! i)\<lparr>powProcess := Killed\<rparr>],
                  events := events s @ [ProcessKilled i]\<rparr>))"

text \<open>
  Lines 1278-1288, in the handler of worker \<open>i\<close>: its measure is reset and its process killed;
  \<^verbatim>\<open>powWorker\<close> becomes a new \<^verbatim>\<open>Worker\<close>, with its own state and the initial listener; the
  request is sent through \<^verbatim>\<open>that.powProcess\<close>, the process just killed.
\<close>

definition releaseMemory :: "nat \<Rightarrow> block \<Rightarrow> int \<Rightarrow> pow_state \<Rightarrow> error option \<times> pow_state" where
  "releaseMemory i blk n s0 =
     (let s = s0\<lparr>workers := (workers s0)[i := (workers s0 ! i)\<lparr>speedMesured := False\<rparr>]\<rparr>
      in case killProcess i s of
           Inl err \<Rightarrow> (Some err, s)
         | Inr s \<Rightarrow>
             (None, s\<lparr>workers := workers s @ [newWorker],
                      powWorker := Some (length (workers s)),
                      events := events s @ [WorkerCreated (length (workers s)),
                                            RequestSent i (blk\<lparr>nonce := n\<rparr>)]\<rparr>))"

text \<open>Lines 1293-1305, in the handler of worker \<open>i\<close>: a pending cancellation stops the proof.\<close>

definition cancelProof :: "nat \<Rightarrow> pow_state \<Rightarrow> error option \<times> pow_state" where
  "cancelProof i s0 =
     (let s = s0\<lparr>workers := (workers s0)[i := (workers s0 ! i)\<lparr>speedMesured := False, stopped := True\<rparr>]\<rparr>
      in case killProcess i s of
           Inl err \<Rightarrow> (Some err, s)
         | Inr s \<Rightarrow>
             (let s = s\<lparr>workers := (workers s)[i := (workers s ! i)\<lparr>powProcess := NoProcess\<rparr>],
                        powWorker := None\<rparr>
              in case callOnPoWFound i None s of
                   Inl err \<Rightarrow> (Some err, s)
                 | Inr s \<Rightarrow>
                     (let s = s\<lparr>workers := (workers s)[i := (workers s ! i)\<lparr>started := False\<rparr>]\<rparr>
                      in case cancels s of
                           [] \<Rightarrow> (Some TypeError, s)
                         | cancelConfirm # pending \<Rightarrow>
                             (None, taskDoneCalled
                                      (s\<lparr>cancels := pending,
                                         events := events s @ [CancelConfirmed cancelConfirm]\<rparr>)))))"

text \<open>
  The handler of the messages of worker \<open>i\<close>, lines 1260-1307; \<open>RELEASE_MEMORY\<close> is
  \<^verbatim>\<open>constants.PROOF_OF_WORK.RELEASE_MEMORY\<close>. The first component is what the handler throws.
  A position that names no worker has no handler.
\<close>

definition onMessage :: "int \<Rightarrow> nat \<Rightarrow> pow_state \<Rightarrow> pow_msg \<Rightarrow> error option \<times> pow_state" where
  "onMessage RELEASE_MEMORY i s0 msg =
     (if length (workers s0) \<le> i then (None, s0)
      else
       (let s = (if stopped (workers s0 ! i)
                 then s0\<lparr>workers := (workers s0)[i := (workers s0 ! i)\<lparr>started := True, stopped := False\<rparr>]\<rparr>
                 else s0)
        in if msg_found msg then
             (let s = s\<lparr>workers := (workers s)[i := (workers s ! i)\<lparr>stopped := True, started := False\<rparr>]\<rparr>
              in case callOnPoWFound i (msg_block msg) s of
                   Inl err \<Rightarrow> (Some err, s)
                 | Inr s \<Rightarrow> (None, s))
           else if truthy (msg_testsPerRound msg)
           then (None, s\<lparr>workers := (workers s)[i := (workers s ! i)\<lparr>speedMesured := True\<rparr>]\<rparr>)
           else
             (case msg_block msg of
                None \<Rightarrow> (Some TypeError, s)
              | Some blk \<Rightarrow>
                  (case (case msg_nonce msg of
                           None \<Rightarrow> None
                         | Some n \<Rightarrow> if nonce blk + RELEASE_MEMORY < n then Some n else None) of
                     Some n \<Rightarrow> releaseMemory i blk n s
                   | None \<Rightarrow>
                       if speedMesured (workers s ! i) \<and> cancels s \<noteq> [] then cancelProof i s
                       else (None, s)))))"


section \<open>Sample data\<close>

text \<open>Blocks and cores named by height, hash and previous hash, and contexts that accept
  every block and store it as it is.\<close>

definition blockAt :: "int \<Rightarrow> string \<Rightarrow> string \<Rightarrow> block" where
  "blockAt n h p = newBlock\<lparr>number := n, hash := h, previousHash := p\<rparr>"

definition coreAt :: "int \<Rightarrow> string \<Rightarrow> string \<Rightarrow> core" where
  "coreAt n h p = \<lparr> forkPointNumber = n, forkPointHash = h, forkPointPreviousHash = p,
                   coreCurrent = blockAt n h p \<rparr>"

definition acceptingOps :: ctx_ops where
  "acceptingOps = \<lparr> checkBlock = (\<lambda>ctx st blk. None), addBlock = (\<lambda>ctx st blk doCheck. Inr blk) \<rparr>"


text \<open>
  Contexts whose main context accepts a block only with the number that follows the confirmed
  tip (0 without a tip), and that store every block as it is.
\<close>

definition sequencingOps :: ctx_ops where
  "sequencingOps =
     \<lparr> checkBlock = (\<lambda>ctx st blk.
         (case ctx of
            MainContext \<Rightarrow>
              if number blk = (case getCurrentBlockOrNull st of None \<Rightarrow> 0 | Some cur \<Rightarrow> number cur + 1)
              then None else Some (Err ''Wrong block number'')
          | CoreContext c \<Rightarrow> None)),
       addBlock = (\<lambda>ctx st blk doCheck. Inr blk) \<rparr>"

text \<open>A check that rejects a list holding both of two given candidates.\<close>

definition rejectsTogether :: "nat \<Rightarrow> nat \<Rightarrow> nat list \<Rightarrow> string option" where
  "rejectsTogether a b xs = (if a \<in> set xs \<and> b \<in> set xs then Some ''outdistanced'' else None)"


text \<open>
  An assembly on top of a block of height 5 with 10 members: two newcomers, a member who
  renews, a member who leaves, and a member to be kicked who also asked to renew.
\<close>

definition sampleConf :: conf where
  "sampleConf = \<lparr> conf_currency = ''beta'', conf_c = 1 / 10, conf_dt = 30, conf_ud0 = 100,
     conf_sigDelay = 0, conf_sigValidity = 1000, conf_sigQty = 1, conf_sigWoT = 1,
     conf_msValidity = 1000, conf_stepMax = 3, conf_medianTimeBlocks = 1, conf_avgGenTime = 60,
     conf_dtDiffEval = 10, conf_blocksRot = 2, conf_percentRot = 1, conf_rootoffset = 0,
     conf_branchesWindowSize = 3, conf_participate = True \<rparr>"

definition sampleEnv :: assembly_env where
  "sampleEnv = \<lparr> inlineIdentity = pubkey, inlineMembership = ms_issuer,
     inlineCertification = (\<lambda>cert. cert_from cert @ '':'' @ cert_to cert), compact = tx_raw,
     showNumber = (\<lambda>q. ''n''), getPoWMin = (\<lambda>blk. Inr 1), getMedianTime = (\<lambda>blk. Inr 100),
     getBlockOrNull = (\<lambda>n. None), utcNow = 100 \<rparr>"

definition sampleParent :: block where
  "sampleParent = (blockAt 5 ''H5'' ''H4'')\<lparr>membersCount := 10, monetaryMass := Some 30000\<rparr>"

definition sampleUDBlock :: block where
  "sampleUDBlock = (blockAt 3 ''H3'' ''H2'')\<lparr>dividend := Some (Fin 100), UDTime := Some 50\<rparr>"

text \<open>
  The same parent, configuration and dividend block with the growth rate, the number of
  members, the monetary mass and the previous dividend left open.
\<close>

definition confWith :: "rat \<Rightarrow> conf" where
  "confWith c = sampleConf\<lparr>conf_c := c\<rparr>"

definition parentWith :: "int \<Rightarrow> int \<Rightarrow> block" where
  "parentWith members mass = (blockAt 5 ''H5'' ''H4'')\<lparr>membersCount := members, monetaryMass := Some mass\<rparr>"

definition udBlockWith :: "rat \<Rightarrow> block" where
  "udBlockWith ud = (blockAt 3 ''H3'' ''H2'')\<lparr>dividend := Some (Fin ud), UDTime := Some 50\<rparr>"

definition sampleJoin :: "string \<Rightarrow> bool \<Rightarrow> join" where
  "sampleJoin k m =
     \<lparr> j_identity = \<lparr> pubkey = k, uid = k, member = m, wasMember = m, currentMSN = 0 \<rparr>,
       j_ms = \<lparr> ms_issuer = k, ms_userid = k, ms_number = 4 \<rparr>,
       j_certs = [] \<rparr>"

definition sampleLeave :: "string \<Rightarrow> leave" where
  "sampleLeave k =
     \<lparr> l_identity = \<lparr> pubkey = k, uid = k, member = True, wasMember = True, currentMSN = 0 \<rparr>,
       l_ms = \<lparr> ms_issuer = k, ms_userid = k, ms_number = 4 \<rparr> \<rparr>"

definition sampleJoinData :: "join obj" where
  "sampleJoinData = [(''N1'', sampleJoin ''N1'' False), (''A'', sampleJoin ''A'' True),
                     (''K'', sampleJoin ''K'' True), (''N2'', sampleJoin ''N2'' False)]"


text \<open>Three pending transactions; the global validation refuses the second.\<close>

definition sampleTx :: "string \<Rightarrow> tx" where
  "sampleTx h = \<lparr> tx_hash = h, tx_raw = ''raw '' @ h \<rparr>"

definition sampleValidation :: tx_validation where
  "sampleValidation =
     \<lparr> checkBunchOfTransactions = (\<lambda>txs. None),
       checkSingleTransaction =
         (\<lambda>t. if tx_hash t = ''T2'' then Some (Err ''Source already consumed'') else None) \<rparr>"


text \<open>
  Two DALs for the removal: one deletes the pending transaction of the given hash, the other
  is out of service.
\<close>

definition deletingRemoveTx :: "tx list \<Rightarrow> string \<Rightarrow> error + tx list" where
  "deletingRemoveTx pool h = Inr (filter (\<lambda>t. tx_hash t \<noteq> h) pool)"

definition failingRemoveTx :: "tx list \<Rightarrow> string \<Rightarrow> error + tx list" where
  "failingRemoveTx pool h = Inl (Err ''db down'')"

text \<open>
  A confirmed chain that ends at height 10, and blocks above it: a line \<open>a\<close>
  (\<open>A11\<close>, \<open>A12\<close>, \<open>A13\<close>, \<open>A14\<close>), a second block \<open>B11\<close> on the confirmed tip, a line \<open>b\<close> that
  leaves line \<open>a\<close> after \<open>A11\<close> (\<open>B12\<close>, \<open>B13\<close>).
\<close>

definition b10 :: block where "b10 = blockAt 10 ''H10'' ''H09''"
definition b11a :: block where "b11a = blockAt 11 ''A11'' ''H10''"
definition b11b :: block where "b11b = blockAt 11 ''B11'' ''H10''"
definition b12a :: block where "b12a = blockAt 12 ''A12'' ''A11''"
definition b13a :: block where "b13a = blockAt 13 ''A13'' ''A12''"
definition b14a :: block where "b14a = blockAt 14 ''A14'' ''A13''"
definition b12b :: block where "b12b = blockAt 12 ''B12'' ''A11''"
definition b13b :: block where "b13b = blockAt 13 ''B13'' ''B12''"

definition confirmedAt10 :: fm_state where
  "confirmedAt10 = \<lparr> st_cores = [], st_chain = [b10] \<rparr>"

text \<open>The state a list of submissions leaves, each one checked, whatever its outcome.\<close>

definition submitAll :: "ctx_ops \<Rightarrow> int \<Rightarrow> fm_state \<Rightarrow> block list \<Rightarrow> fm_state" where
  "submitAll ops forkWindowSize st blks =
     fold (\<lambda>blk s. snd (submitBlock ops forkWindowSize s blk True)) blks st"


text \<open>
  The proof-of-work before any proof is asked, the request of a proof for a block of height
  11, and the messages of a worker: its calibration and the report of a nonce.
\<close>

definition idlePow :: pow_state where
  "idlePow = \<lparr> workers = [], powWorker = None, cancels = [], powFifo = [], powFifoRunning = False,
     computing = True, computeNextCallback = False, events = [] \<rparr>"

definition calibrationMsg :: pow_msg where
  "calibrationMsg = \<lparr> msg_found = False, msg_testsPerRound = Some 300, msg_nonce = None,
     msg_block = None \<rparr>"

definition progressMsg :: "int \<Rightarrow> pow_msg" where
  "progressMsg n = \<lparr> msg_found = False, msg_testsPerRound = None, msg_nonce = Some n,
     msg_block = Some (blockAt 11 ''P11'' ''H10'') \<rparr>"

text \<open>
  The worker of a proof asked from \<open>idlePow\<close>, calibrated, at the time a block comes in: the
  request to cancel is queued and the queue has started it.
\<close>

definition calibratedPow :: pow_state where
  "calibratedPow =
     snd (onMessage 1000 0 (snd (prove (blockAt 11 ''P11'' ''H10'') 4 idlePow)) calibrationMsg)"

definition cancelAskedPow :: pow_state where
  "cancelAskedPow = powFifoProcess (stopPoWThenProcessAndRestartPoW True 7 calibratedPow)"


section \<open>Properties of the main-fork election\<close>

lemma fold_max_in_set:
  "fold (\<lambda>v r. if f r < f v then v else r) xs x \<in> set (x # xs)"
  by (induction xs arbitrary: x) auto

lemma fold_max_ge_start:
  "(f x :: int) \<le> f (fold (\<lambda>v r. if f r < f v then v else r) xs x)"
proof (induction xs arbitrary: x)
  case Nil
  show ?case by simp
next
  case (Cons y ys)
  show ?case
  proof (cases "f x < f y")
    case True
    have "f y \<le> f (fold (\<lambda>v r. if f r < f v then v else r) ys y)" by (rule Cons.IH)
    with True show ?thesis by simp
  next
    case False
    with Cons.IH [of x] show ?thesis by simp
  qed
qed

lemma fold_max_upper:
  "y \<in> set (x # xs) \<Longrightarrow> (f y :: int) \<le> f (fold (\<lambda>v r. if f r < f v then v else r) xs x)"
proof (induction xs arbitrary: x)
  case Nil
  then show ?case by simp
next
  case (Cons z zs)
  let ?g = "\<lambda>v r. if f r < f v then v else r"
  from Cons.prems consider "y = x" | "y = z" | "y \<in> set zs" by auto
  then show ?case
  proof cases
    case 1
    show ?thesis
    proof (cases "f x < f z")
      case True
      have "f z \<le> f (fold ?g zs z)" by (rule fold_max_ge_start)
      with True 1 show ?thesis by simp
    next
      case False
      have "f x \<le> f (fold ?g zs x)" by (rule fold_max_ge_start)
      with False 1 show ?thesis by simp
    qed
  next
    case 2
    show ?thesis
    proof (cases "f x < f z")
      case True
      have "f z \<le> f (fold ?g zs z)" by (rule fold_max_ge_start)
      with True 2 show ?thesis by simp
    next
      case False
      have "f x \<le> f (fold ?g zs x)" by (rule fold_max_ge_start)
      with False 2 show ?thesis by simp
    qed
  next
    case 3
    then have a: "y \<in> set (z # zs)" and b: "y \<in> set (x # zs)" by simp_all
    show ?thesis
    proof (cases "f x < f z")
      case True
      with Cons.IH [OF a] show ?thesis by simp
    next
      case False
      with Cons.IH [OF b] show ?thesis by simp
    qed
  qed
qed

lemma underscore_max_Some:
  assumes "xs \<noteq> []"
  obtains m where "underscore_max f xs = Some m" "m \<in> set xs" "\<forall>y\<in>set xs. f y \<le> f m"
proof (cases xs)
  case Nil
  with assms show ?thesis by simp
next
  case (Cons x ys)
  let ?m = "fold (\<lambda>v r. if f r < f v then v else r) ys x"
  have "underscore_max f xs = Some ?m" using Cons by simp
  moreover have "?m \<in> set xs" using Cons fold_max_in_set [of f ys x] by simp
  moreover have "\<forall>y\<in>set xs. f y \<le> f ?m" using Cons fold_max_upper [of _ x ys f] by blast
  ultimately show ?thesis by (rule that)
qed

lemma sorted_key_last_greatest:
  "sorted (map f ys) \<Longrightarrow> y \<in> set ys \<Longrightarrow> f y \<le> f (last ys)"
proof (induction ys)
  case Nil
  then show ?case by simp
next
  case (Cons a as)
  show ?case
  proof (cases "as = []")
    case True
    with Cons.prems show ?thesis by simp
  next
    case False
    then have l: "last (a # as) = last as" by simp
    from Cons.prems(1) have s: "sorted (map f as)" and le: "\<forall>z\<in>set as. f a \<le> f z" by simp_all
    from Cons.prems(2) consider "y = a" | "y \<in> set as" by auto
    then show ?thesis
    proof cases
      case 1
      from False have "last as \<in> set as" by simp
      with le 1 l show ?thesis by simp
    next
      case 2
      with Cons.IH [OF s] l show ?thesis by simp
    qed
  qed
qed

text \<open>
  C1. For every non-empty list of cores, \<^verbatim>\<open>getMainFork\<close> returns a core of the list whose
  \<^verbatim>\<open>forkPointNumber\<close> is the maximum over the list, and whose \<^verbatim>\<open>forkPointHash\<close> is
  lexicographically greatest among the cores at that height.
\<close>

theorem getMainFork_highest_greatest_hash:
  assumes "cores \<noteq> []"
  shows "\<exists>c. getMainFork cores = Some c \<and> c \<in> set cores
           \<and> forkPointNumber c = Max (forkPointNumber ` set cores)
           \<and> (\<forall>d\<in>set cores. forkPointNumber d = forkPointNumber c
                 \<longrightarrow> forkPointHash d \<le> forkPointHash c)"
proof -
  from assms obtain m where m: "underscore_max forkPointNumber cores = Some m"
    and min: "m \<in> set cores"
    and mmax: "\<forall>y\<in>set cores. forkPointNumber y \<le> forkPointNumber m"
    by (rule underscore_max_Some)
  let ?hs = "filter (\<lambda>c. forkPointNumber c = forkPointNumber m) cores"
  let ?ss = "sortBy forkPointHash ?hs"
  have sset: "set ?ss = set ?hs" by (simp add: sortBy_def)
  have "m \<in> set ?hs" using min by simp
  then have ne: "?ss \<noteq> []" using sset by (metis empty_iff empty_set)
  have res: "getMainFork cores = Some (last ?ss)"
    using m ne by (simp add: getMainFork_def Let_def)
  have lin: "last ?ss \<in> set ?hs" using ne sset last_in_set by blast
  then have lcores: "last ?ss \<in> set cores"
    and lnum: "forkPointNumber (last ?ss) = forkPointNumber m" by simp_all
  have "Max (forkPointNumber ` set cores) = forkPointNumber m"
  proof (rule Max_eqI)
    show "finite (forkPointNumber ` set cores)" by simp
    show "\<And>y. y \<in> forkPointNumber ` set cores \<Longrightarrow> y \<le> forkPointNumber m"
      using mmax by auto
    show "forkPointNumber m \<in> forkPointNumber ` set cores" using min by simp
  qed
  with lnum have lmax: "forkPointNumber (last ?ss) = Max (forkPointNumber ` set cores)" by simp
  have srt: "sorted (map forkPointHash ?ss)" by (simp add: sortBy_def)
  have "\<forall>d\<in>set cores. forkPointNumber d = forkPointNumber (last ?ss)
          \<longrightarrow> forkPointHash d \<le> forkPointHash (last ?ss)"
  proof (intro ballI impI)
    fix d assume "d \<in> set cores" and "forkPointNumber d = forkPointNumber (last ?ss)"
    with lnum have "d \<in> set ?ss" using sset by simp
    with srt show "forkPointHash d \<le> forkPointHash (last ?ss)"
      by (rule sorted_key_last_greatest)
  qed
  with res lcores lmax show ?thesis by blast
qed

theorem getMainFork_witness:
  "getMainFork [coreAt 11 ''0ABC'' ''00'', coreAt 10 ''0FFF'' ''0A'', coreAt 11 ''0FED'' ''00'']
     = Some (coreAt 11 ''0FED'' ''00'')"
proof -
  let ?cs = "[coreAt 11 ''0ABC'' ''00'', coreAt 10 ''0FFF'' ''0A'', coreAt 11 ''0FED'' ''00'']"
  have ne: "?cs \<noteq> []" by simp
  from getMainFork_highest_greatest_hash [OF ne]
  obtain c where r: "getMainFork ?cs = Some c" and cin: "c \<in> set ?cs"
    and cmax: "forkPointNumber c = Max (forkPointNumber ` set ?cs)"
    and chash: "\<forall>d\<in>set ?cs. forkPointNumber d = forkPointNumber c
                  \<longrightarrow> forkPointHash d \<le> forkPointHash c"
    by blast
  have "Max (forkPointNumber ` set ?cs) = 11" by (simp add: coreAt_def)
  with cmax have n: "forkPointNumber c = 11" by simp
  from chash n have "forkPointHash (coreAt 11 ''0FED'' ''00'') \<le> forkPointHash c"
    by (simp add: coreAt_def)
  then have h: "''0FED'' \<le> forkPointHash c" by (simp add: coreAt_def)
  from cin consider "c = coreAt 11 ''0ABC'' ''00''" | "c = coreAt 10 ''0FFF'' ''0A''"
    | "c = coreAt 11 ''0FED'' ''00''" by auto
  then have "c = coreAt 11 ''0FED'' ''00''"
  proof cases
    case 1
    with h show ?thesis by (simp add: coreAt_def)
  next
    case 2
    with n show ?thesis by (simp add: coreAt_def)
  next
    case 3
    then show ?thesis .
  qed
  with r show ?thesis by simp
qed

section \<open>Properties of the iterated checking\<close>

lemma checkingPass_subseq:
  "\<exists>ys. fst (checkingPass chk ns (p, e)) = p @ ys \<and> subseq ys ns"
proof (induction ns arbitrary: p e)
  case Nil
  show ?case by simp
next
  case (Cons n ns)
  show ?case
  proof (cases "chk (p @ [n])")
    case None
    from Cons.IH [of "p @ [n]" e] obtain ys
      where "fst (checkingPass chk ns (p @ [n], e)) = (p @ [n]) @ ys" and "subseq ys ns" by blast
    with None have "fst (checkingPass chk (n # ns) (p, e)) = p @ (n # ys) \<and> subseq (n # ys) (n # ns)"
      by simp
    then show ?thesis by blast
  next
    case (Some err)
    from Cons.IH [of p True] obtain ys
      where "fst (checkingPass chk ns (p, True)) = p @ ys" and "subseq ys ns" by blast
    with Some have "fst (checkingPass chk (n # ns) (p, e)) = p @ ys \<and> subseq ys (n # ns)"
      by (simp add: list_emb_Cons)
    then show ?thesis by blast
  qed
qed

lemma checkingPass_error_kept:
  "snd (checkingPass chk ns (p, True))"
  by (induction ns arbitrary: p) (auto split: option.splits)

lemma checkingPass_no_rejection:
  "\<not> snd (checkingPass chk ns (p, e)) \<Longrightarrow> checkingPass chk ns (p, e) = (p @ ns, False)"
proof (induction ns arbitrary: p)
  case Nil
  then show ?case by simp
next
  case (Cons n ns)
  show ?case
  proof (cases "chk (p @ [n])")
    case None
    with Cons.prems have "\<not> snd (checkingPass chk ns (p @ [n], e))" by simp
    from Cons.IH [OF this] None show ?thesis by simp
  next
    case (Some err)
    with Cons.prems checkingPass_error_kept [of chk ns p] show ?thesis by simp
  qed
qed

lemma iteratedChecking_subseq: "subseq (iteratedChecking chk ns) ns"
proof (induction chk ns rule: iteratedChecking.induct)
  case (1 chk ns)
  obtain passing hadError where pass: "checkingPass chk ns ([], False) = (passing, hadError)"
    by (cases "checkingPass chk ns ([], False)")
  from checkingPass_subseq [of chk ns "[]" False] pass have sub: "subseq passing ns" by simp
  show ?case
  proof (cases hadError)
    case True
    with pass have "iteratedChecking chk ns = iteratedChecking chk passing"
      by (simp add: iteratedChecking.simps [of chk ns])
    moreover from "1.IH" [OF pass [symmetric] True] have "subseq (iteratedChecking chk passing) passing" .
    ultimately show ?thesis using sub subseq_order.trans by metis
  next
    case False
    with pass have "iteratedChecking chk ns = passing"
      by (simp add: iteratedChecking.simps [of chk ns])
    with sub show ?thesis by simp
  qed
qed

lemma iteratedChecking_passes:
  "checkingPass chk (iteratedChecking chk ns) ([], False) = (iteratedChecking chk ns, False)"
proof (induction chk ns rule: iteratedChecking.induct)
  case (1 chk ns)
  obtain passing hadError where pass: "checkingPass chk ns ([], False) = (passing, hadError)"
    by (cases "checkingPass chk ns ([], False)")
  show ?case
  proof (cases hadError)
    case True
    with pass have "iteratedChecking chk ns = iteratedChecking chk passing"
      by (simp add: iteratedChecking.simps [of chk ns])
    with "1.IH" [OF pass [symmetric] True] show ?thesis by simp
  next
    case False
    with pass have r: "iteratedChecking chk ns = passing"
      by (simp add: iteratedChecking.simps [of chk ns])
    from False pass have "\<not> snd (checkingPass chk ns ([], False))" by simp
    from checkingPass_no_rejection [OF this] pass have "passing = ns" by simp
    with r pass False show ?thesis by simp
  qed
qed

text \<open>
  C5. \<^verbatim>\<open>iteratedChecking\<close> is total (its recursion is on a strictly shorter list) and returns a
  sub-list of the candidates on which one whole pass rejects nobody; when a pass rejects a
  candidate it goes on with the candidates the pass accepted, and otherwise returns its input.
\<close>

theorem iteratedChecking_fixpoint:
  "subseq (iteratedChecking chk ns) ns
   \<and> set (iteratedChecking chk ns) \<subseteq> set ns
   \<and> checkingPass chk (iteratedChecking chk ns) ([], False) = (iteratedChecking chk ns, False)
   \<and> (snd (checkingPass chk ns ([], False)) \<longrightarrow>
        iteratedChecking chk ns = iteratedChecking chk (fst (checkingPass chk ns ([], False))))
   \<and> (\<not> snd (checkingPass chk ns ([], False)) \<longrightarrow> iteratedChecking chk ns = ns)"
proof -
  obtain passing hadError where pass: "checkingPass chk ns ([], False) = (passing, hadError)"
    by (cases "checkingPass chk ns ([], False)")
  have a: "subseq (iteratedChecking chk ns) ns" by (rule iteratedChecking_subseq)
  then have b: "set (iteratedChecking chk ns) \<subseteq> set ns"
    by (auto dest: list_emb_set)
  have c: "checkingPass chk (iteratedChecking chk ns) ([], False) = (iteratedChecking chk ns, False)"
    by (rule iteratedChecking_passes)
  have d: "snd (checkingPass chk ns ([], False)) \<longrightarrow>
        iteratedChecking chk ns = iteratedChecking chk (fst (checkingPass chk ns ([], False)))"
    using pass by (simp add: iteratedChecking.simps [of chk ns])
  have e: "\<not> snd (checkingPass chk ns ([], False)) \<longrightarrow> iteratedChecking chk ns = ns"
  proof
    assume n: "\<not> snd (checkingPass chk ns ([], False))"
    from checkingPass_no_rejection [OF n] pass have "passing = ns" and "\<not> hadError" by simp_all
    with pass show "iteratedChecking chk ns = ns" by (simp add: iteratedChecking.simps [of chk ns])
  qed
  from a b c d e show ?thesis by blast
qed

theorem iteratedChecking_witness:
  "snd (checkingPass (rejectsTogether 2 4) [1, 2, 3, 4] ([], False))
   \<and> fst (checkingPass (rejectsTogether 2 4) [1, 2, 3, 4] ([], False)) = [1, 2, 3]
   \<and> \<not> snd (checkingPass (rejectsTogether 2 4) [1, 2, 3] ([], False))
   \<and> iteratedChecking (rejectsTogether 2 4) [1, 2, 3, 4] = [1, 2, 3]"
proof -
  have p1: "checkingPass (rejectsTogether 2 4) [1, 2, 3, 4] ([], False) = ([1, 2, 3], True)"
    by (simp add: rejectsTogether_def)
  have p2: "checkingPass (rejectsTogether 2 4) [1, 2, 3] ([], False) = ([1, 2, 3], False)"
    by (simp add: rejectsTogether_def)
  from iteratedChecking_fixpoint [of "rejectsTogether 2 4" "[1, 2, 3, 4]"] p1
  have "iteratedChecking (rejectsTogether 2 4) [1, 2, 3, 4]
          = iteratedChecking (rejectsTogether 2 4) [1, 2, 3]" by simp
  moreover from iteratedChecking_fixpoint [of "rejectsTogether 2 4" "[1, 2, 3]"] p2
  have "iteratedChecking (rejectsTogether 2 4) [1, 2, 3] = [1, 2, 3]" by simp
  ultimately show ?thesis using p1 p2 by simp
qed

section \<open>Properties of JavaScript numbers\<close>

text \<open>
  \<open>fl\<close> against exact arithmetic: an integer below \<open>2^53\<close> in magnitude is a double, and
  rounding moves a number by at most \<open>2^-53\<close> of its magnitude (plus a term for the
  subnormal range). Hence the double quotient \<^verbatim>\<open>c * M / N\<close> is less than 1 away from the exact
  one under the stated bounds, and the ceiling of a maximum moves by at most 1.
\<close>

lemma round_half_even_close: "\<bar>of_int (round_half_even x) - x\<bar> \<le> 1 / 2"
proof -
  have "of_int \<lfloor>x\<rfloor> \<le> x" and "x < of_int \<lfloor>x\<rfloor> + 1" by linarith+
  then show ?thesis
    unfolding round_half_even_def Let_def by (auto simp: abs_le_iff)
qed

lemma round_half_even_of_int: "round_half_even (of_int j) = j"
  by (simp add: round_half_even_def Let_def)

lemma floor_log2_bounds:
  assumes "0 < x"
  shows "2 powi (floor_log2 x) \<le> x" and "x < 2 powi (floor_log2 x + 1)"
proof -
  obtain p q where pq: "quotient_of x = (p, q)" by (cases "quotient_of x")
  then have q: "0 < q" and x: "x = of_int p / of_int q"
    using quotient_of_denom_pos quotient_of_div by blast+
  with assms have p: "0 < p" by (simp add: zero_less_divide_iff)
  define bp bq where "bp = bitlen p" and "bq = bitlen q"
  from bitlen_bounds [OF p] have p1: "2 ^ nat (bp - 1) \<le> p" and p2: "p < 2 ^ nat bp"
    by (simp_all add: bp_def)
  from bitlen_bounds [OF q] have q1: "2 ^ nat (bq - 1) \<le> q" and q2: "q < 2 ^ nat bq"
    by (simp_all add: bq_def)
  have bp1: "1 \<le> bp" using p bitlen_eq_zero_iff [of p] bitlen_nonneg [of p] by (simp add: bp_def)
  have bq1: "1 \<le> bq" using q bitlen_eq_zero_iff [of q] bitlen_nonneg [of q] by (simp add: bq_def)
  have cast_le: "(2::rat) ^ n \<le> of_int j" if "2 ^ n \<le> j" for n and j :: int
  proof -
    from that have "(of_int (2 ^ n) :: rat) \<le> of_int j" by (simp only: of_int_le_iff)
    then show ?thesis by simp
  qed
  have cast_less: "of_int j < (2::rat) ^ n" if "j < 2 ^ n" for n and j :: int
  proof -
    from that have "(of_int j :: rat) < of_int (2 ^ n)" by (simp only: of_int_less_iff)
    then show ?thesis by simp
  qed
  have P1: "(2::rat) powi (bp - 1) \<le> of_int p"
    using cast_le [OF p1] bp1 by (simp add: power_int_nonneg_exp)
  have P2: "of_int p < (2::rat) powi bp"
    using cast_less [OF p2] bp1 by (simp add: power_int_nonneg_exp)
  have Q1: "(2::rat) powi (bq - 1) \<le> of_int q"
    using cast_le [OF q1] bq1 by (simp add: power_int_nonneg_exp)
  have Q2: "of_int q < (2::rat) powi bq"
    using cast_less [OF q2] bq1 by (simp add: power_int_nonneg_exp)
  have qpos: "(0::rat) < of_int q" using q by simp
  have pw: "(0::rat) < 2 powi n" for n by (simp add: zero_less_power_int)
  have lo: "(2::rat) powi (bp - bq - 1) \<le> x"
  proof -
    have "(2::rat) powi (bp - bq - 1) * of_int q \<le> 2 powi (bp - bq - 1) * 2 powi bq"
      using Q2 pw [of "bp - bq - 1"] by (simp add: mult_left_mono less_imp_le)
    also have "\<dots> = 2 powi (bp - 1)"
      by (simp flip: power_int_add)
    also have "\<dots> \<le> of_int p" by (rule P1)
    finally show ?thesis using qpos by (simp add: x pos_le_divide_eq)
  qed
  have hi: "x < (2::rat) powi (bp - bq + 1)"
  proof -
    have "of_int p < (2::rat) powi bp" by (rule P2)
    also have "\<dots> = 2 powi (bp - bq + 1) * 2 powi (bq - 1)"
      by (simp flip: power_int_add)
    also have "\<dots> \<le> 2 powi (bp - bq + 1) * of_int q"
      using Q1 pw [of "bp - bq + 1"] by (simp add: mult_left_mono less_imp_le)
    finally show ?thesis using qpos by (simp add: x pos_divide_less_eq)
  qed
  have fl: "floor_log2 x = (if 2 powi (bp - bq) \<le> x then bp - bq else bp - bq - 1)"
    by (simp add: floor_log2_def pq bp_def bq_def Let_def)
  show "2 powi (floor_log2 x) \<le> x" using lo by (simp add: fl)
  show "x < 2 powi (floor_log2 x + 1)" using hi by (auto simp: fl not_le)
qed


lemma fl_nonzero:
  assumes nz: "x \<noteq> 0" and small: "\<bar>x\<bar> < 2 ^ 1000"
  defines "e \<equiv> max (floor_log2 \<bar>x\<bar> - 52) (- 1074)"
  defines "m \<equiv> round_half_even (\<bar>x\<bar> / 2 powi e)"
  shows "fl x = Fin (sgn x * (of_int m * 2 powi e))"
    and "2 powi e \<le> \<bar>x\<bar> / 2 ^ 52 \<or> e = - 1074"
    and "- 1074 \<le> e"
    and "floor_log2 \<bar>x\<bar> - 52 \<le> e"
proof -
  define a where "a = \<bar>x\<bar>"
  define k where "k = floor_log2 a"
  have a: "0 < a" using nz by (simp add: a_def)
  from floor_log2_bounds [OF a] have k1: "2 powi k \<le> a" and k2: "a < 2 powi (k + 1)"
    by (simp_all add: k_def)
  have e: "e = max (k - 52) (- 1074)" by (simp add: e_def k_def a_def)
  have pw: "(0::rat) < 2 powi n" for n by (simp add: zero_less_power_int)
  have k1000: "k < 1000"
  proof (rule ccontr)
    assume "\<not> k < 1000"
    then have "(2::rat) powi 1000 \<le> 2 powi k" by (intro power_int_increasing) simp_all
    with k1 small show False by (simp add: a_def)
  qed
  have ek: "k - 52 \<le> e" and e1074: "- 1074 \<le> e" and e948: "e < 948"
    using k1000 by (simp_all add: e)
  have scaled: "a / 2 powi e < 2 ^ 53"
  proof -
    have "a < 2 powi (k + 1)" by (rule k2)
    also have "(2::rat) powi (k + 1) \<le> 2 powi (e + 53)"
      using ek by (intro power_int_increasing) simp_all
    also have "\<dots> = 2 ^ 53 * 2 powi e" by (simp add: power_int_add)
    finally show ?thesis using pw [of e] by (simp add: pos_divide_less_eq)
  qed
  have m: "m = round_half_even (a / 2 powi e)" by (simp add: m_def a_def)
  have mclose: "\<bar>of_int m - a / 2 powi e\<bar> \<le> 1 / 2"
    unfolding m by (rule round_half_even_close)
  have "(of_int m :: rat) < 2 ^ 53 + 1" using mclose scaled by linarith
  then have "(of_int m :: rat) < of_int (2 ^ 53 + 1)" by simp
  then have "m < 2 ^ 53 + 1" by (simp only: of_int_less_iff)
  then have "m < 2 ^ nat 54" by simp
  then have "bitlen m \<le> 54" by (simp add: bitlen_le_iff_power)
  with e948 have noover: "\<not> 1025 \<le> bitlen m + e" by simp
  show "fl x = Fin (sgn x * (of_int m * 2 powi e))"
    using nz noover unfolding fl_def Let_def e_def [symmetric] m_def [symmetric] by simp
  show "2 powi e \<le> \<bar>x\<bar> / 2 ^ 52 \<or> e = - 1074"
  proof (cases "e = - 1074")
    case True
    then show ?thesis by simp
  next
    case False
    with e have "e = k - 52" by (simp add: max_def split: if_splits)
    then have "(2::rat) powi e * 2 ^ 52 = 2 powi k" by (simp add: power_int_diff)
    with k1 have "(2::rat) powi e * 2 ^ 52 \<le> a" by simp
    then show ?thesis by (simp add: a_def pos_le_divide_eq)
  qed
  show "- 1074 \<le> e" by (rule e1074)
  show "floor_log2 \<bar>x\<bar> - 52 \<le> e" using ek by (simp add: k_def a_def)
qed

lemma fl_close:
  assumes "\<bar>x\<bar> < 2 ^ 1000"
  shows "\<exists>y. fl x = Fin y \<and> \<bar>y - x\<bar> \<le> \<bar>x\<bar> / 2 ^ 53 + 1 / 2 ^ 64"
proof (cases "x = 0")
  case True
  then show ?thesis by (simp add: fl_def)
next
  case False
  define e where "e = max (floor_log2 \<bar>x\<bar> - 52) (- 1074)"
  define m where "m = round_half_even (\<bar>x\<bar> / 2 powi e)"
  define v where "v = of_int m * (2::rat) powi e"
  from fl_nonzero [OF False assms]
  have f: "fl x = Fin (sgn x * v)" and c: "2 powi e \<le> \<bar>x\<bar> / 2 ^ 52 \<or> e = - 1074"
    by (simp_all add: e_def m_def v_def)
  have pw: "(0::rat) < 2 powi e" by (simp add: zero_less_power_int)
  have "\<bar>of_int m - \<bar>x\<bar> / 2 powi e\<bar> \<le> 1 / 2"
    unfolding m_def by (rule round_half_even_close)
  then have "\<bar>of_int m - \<bar>x\<bar> / 2 powi e\<bar> * 2 powi e \<le> 1 / 2 * 2 powi e"
    using pw by (intro mult_right_mono) simp_all
  moreover have "\<bar>of_int m - \<bar>x\<bar> / 2 powi e\<bar> * 2 powi e = \<bar>v - \<bar>x\<bar>\<bar>"
  proof -
    have "\<bar>of_int m - \<bar>x\<bar> / 2 powi e\<bar> * 2 powi e
        = \<bar>(of_int m - \<bar>x\<bar> / 2 powi e) * 2 powi e\<bar>"
      using pw by (simp add: abs_mult)
    also have "(of_int m - \<bar>x\<bar> / 2 powi e) * 2 powi e = v - \<bar>x\<bar>"
      using pw by (simp add: v_def algebra_simps)
    finally show ?thesis .
  qed
  ultimately have d: "\<bar>v - \<bar>x\<bar>\<bar> \<le> 2 powi e / 2" by simp
  have "2 powi e / 2 \<le> \<bar>x\<bar> / 2 ^ 53 + 1 / 2 ^ 64"
  proof -
    from c show ?thesis
    proof
      assume "2 powi e \<le> \<bar>x\<bar> / 2 ^ 52"
      then have "2 powi e / 2 \<le> \<bar>x\<bar> / 2 ^ 52 / 2" by (simp add: divide_right_mono)
      also have "\<dots> = \<bar>x\<bar> / 2 ^ 53" by simp
      finally show ?thesis by simp
    next
      assume "e = - 1074"
      then have "(2::rat) powi e / 2 = 1 / 2 ^ 1075" by (simp add: power_int_minus_divide)
      moreover have "(1::rat) / 2 ^ 1075 \<le> 1 / 2 ^ 64"
        by (intro divide_left_mono power_increasing) simp_all
      ultimately show ?thesis by simp
    qed
  qed
  with d have d': "\<bar>v - \<bar>x\<bar>\<bar> \<le> \<bar>x\<bar> / 2 ^ 53 + 1 / 2 ^ 64" by simp
  have "\<bar>sgn x * v - x\<bar> = \<bar>v - \<bar>x\<bar>\<bar>"
  proof (cases "0 < x")
    case True
    then show ?thesis by simp
  next
    case neg: False
    with False have "x < 0" by simp
    then show ?thesis by (simp add: abs_minus_commute)
  qed
  with d' f show ?thesis by simp
qed


lemma fl_of_int:
  assumes "\<bar>n\<bar> < 2 ^ 53"
  shows "fl (of_int n) = Fin (of_int n)"
proof (cases "n = 0")
  case True
  then show ?thesis by (simp add: fl_def)
next
  case False
  define x :: rat where "x = of_int n"
  define e where "e = max (floor_log2 \<bar>x\<bar> - 52) (- 1074)"
  define m where "m = round_half_even (\<bar>x\<bar> / 2 powi e)"
  have nz: "x \<noteq> 0" using False by (simp add: x_def)
  have ax: "\<bar>x\<bar> = of_int \<bar>n\<bar>" by (simp add: x_def)
  have "(of_int \<bar>n\<bar> :: rat) < of_int (2 ^ 53)" using assms by (simp only: of_int_less_iff)
  then have lt53: "\<bar>x\<bar> < 2 ^ 53" by (simp add: ax)
  then have small: "\<bar>x\<bar> < 2 ^ 1000" by simp
  from fl_nonzero [OF nz small]
  have f: "fl x = Fin (sgn x * (of_int m * 2 powi e))"
    by (simp_all add: e_def m_def)
  have k53: "floor_log2 \<bar>x\<bar> < 53"
  proof (rule ccontr)
    assume "\<not> floor_log2 \<bar>x\<bar> < 53"
    then have "(2::rat) powi 53 \<le> 2 powi (floor_log2 \<bar>x\<bar>)"
      by (intro power_int_increasing) simp_all
    moreover have "2 powi (floor_log2 \<bar>x\<bar>) \<le> \<bar>x\<bar>"
      using nz by (intro floor_log2_bounds) simp
    ultimately show False using lt53 by simp
  qed
  then have e0: "e \<le> 0" by (simp add: e_def)
  have "1 / (2::rat) powi e = 2 powi (- e)" by (simp add: power_int_minus_divide)
  also have "\<dots> = 2 ^ nat (- e)" using e0 by (simp add: power_int_nonneg_exp)
  finally have inv: "1 / (2::rat) powi e = 2 ^ nat (- e)" .
  have "\<bar>x\<bar> / 2 powi e = \<bar>x\<bar> * (1 / 2 powi e)" by simp
  also have "\<dots> = \<bar>x\<bar> * 2 ^ nat (- e)" by (simp only: inv)
  also have "\<dots> = of_int (\<bar>n\<bar> * 2 ^ nat (- e))" by (simp add: ax)
  finally have "\<bar>x\<bar> / 2 powi e = of_int (\<bar>n\<bar> * 2 ^ nat (- e))" .
  then have "m = \<bar>n\<bar> * 2 ^ nat (- e)" by (simp only: m_def round_half_even_of_int)
  then have "(of_int m :: rat) * 2 powi e = \<bar>x\<bar> * (2 ^ nat (- e) * 2 powi e)"
    by (simp add: ax)
  also have "(2::rat) ^ nat (- e) * 2 powi e = 1"
    by (simp add: inv [symmetric])
  finally have "of_int m * 2 powi e = \<bar>x\<bar>" by simp
  with f have "fl x = Fin (sgn x * \<bar>x\<bar>)" by simp
  also have "sgn x * \<bar>x\<bar> = x" by (rule sgn_mult_abs)
  finally show ?thesis by (simp add: x_def)
qed


lemma ceiling_max_close:
  fixes p q x :: rat
  assumes "\<bar>q - x\<bar> < 1"
  shows "\<bar>\<lceil>max p q\<rceil> - \<lceil>max p x\<rceil>\<bar> \<le> 1"
proof -
  from assms have a: "max p q \<le> max p x + 1" and b: "max p x \<le> max p q + 1"
    by (auto simp: max_def abs_less_iff)
  from ceiling_mono [OF a] have "\<lceil>max p q\<rceil> \<le> \<lceil>max p x\<rceil> + 1" by simp
  moreover from ceiling_mono [OF b] have "\<lceil>max p x\<rceil> \<le> \<lceil>max p q\<rceil> + 1" by simp
  ultimately show ?thesis by simp
qed

lemma quotient_close:
  fixes c :: rat and M N :: int
  assumes c: "\<bar>c\<bar> \<le> 1" and M: "\<bar>M\<bar> < 2 ^ 53" and N0: "0 < N" and N: "N < 2 ^ 53"
    and x: "\<bar>c * of_int M / of_int N\<bar> \<le> 2 ^ 49"
  shows "\<exists>q. js_div (js_mul (fl c) (fl (of_int M))) (fl (of_int N)) = Fin q
           \<and> \<bar>q - c * of_int M / of_int N\<bar> < 1"
proof -
  define m :: rat where "m = \<bar>of_int M\<bar>"
  define n :: rat where "n = of_int N"
  define A where "A = \<bar>c\<bar> * m"
  define X where "X = A / n"
  define Y where "Y = m / n"
  define Z where "Z = 1 / n"
  have n1: "1 \<le> n" using N0 by (simp add: n_def)
  then have n0: "0 < n" by simp
  have m0: "0 \<le> m" by (simp add: m_def)
  have "(of_int \<bar>M\<bar> :: rat) < of_int (2 ^ 53)" using M by (simp only: of_int_less_iff)
  then have m53: "m < 2 ^ 53" by (simp add: m_def)
  have A0: "0 \<le> A" using m0 by (simp add: A_def)
  have Am: "A \<le> m" using c m0 by (simp add: A_def mult_left_le_one_le)
  have X0: "0 \<le> X" using A0 n0 by (simp add: X_def)
  have "\<bar>rat_of_int N\<bar> = of_int N" using N0 by simp
  then have X49: "X \<le> 2 ^ 49"
    using x by (simp add: X_def A_def m_def n_def abs_mult)
  have Y0: "0 \<le> Y" using m0 n0 by (simp add: Y_def)
  have "m / n \<le> m / 1" using n1 m0 by (intro divide_left_mono) simp_all
  then have Y53: "Y < 2 ^ 53" using m53 by (simp add: Y_def)
  have Z0: "0 < Z" using n0 by (simp add: Z_def)
  have Z1: "Z \<le> 1" using n1 by (simp add: Z_def)
  have sc: "\<bar>c\<bar> < 2 ^ 1000" using c by simp
  from fl_close [OF sc] obtain c' where
    fc: "fl c = Fin c'" and c': "\<bar>c' - c\<bar> \<le> \<bar>c\<bar> / 2 ^ 53 + 1 / 2 ^ 64" by blast
  have fM: "fl (of_int M) = Fin (of_int M)" by (rule fl_of_int [OF M])
  have "\<bar>N\<bar> < 2 ^ 53" using N0 N by simp
  then have fN: "fl (of_int N) = Fin (of_int N)" by (rule fl_of_int)
  have "\<bar>c' * of_int M - c * of_int M\<bar> = \<bar>c' - c\<bar> * m"
    by (simp add: m_def abs_mult flip: left_diff_distrib)
  also have "\<dots> \<le> (\<bar>c\<bar> / 2 ^ 53 + 1 / 2 ^ 64) * m"
    using c' m0 by (rule mult_right_mono)
  also have "\<dots> = A / 2 ^ 53 + m / 2 ^ 64" by (simp add: A_def algebra_simps)
  finally have E1: "\<bar>c' * of_int M - c * of_int M\<bar> \<le> A / 2 ^ 53 + m / 2 ^ 64" .
  have cM: "\<bar>c * of_int M\<bar> = A" by (simp add: A_def m_def abs_mult)
  have B1: "\<bar>c' * of_int M\<bar> \<le> 2 * A + m / 2 ^ 64"
    using E1 cM A0 by simp
  have s1: "\<bar>c' * of_int M\<bar> < 2 ^ 1000"
    using B1 Am m53 m0 by simp
  from fl_close [OF s1] obtain t where
    ft: "fl (c' * of_int M) = Fin t"
    and t: "\<bar>t - c' * of_int M\<bar> \<le> \<bar>c' * of_int M\<bar> / 2 ^ 53 + 1 / 2 ^ 64" by blast
  have E3: "\<bar>t - c * of_int M\<bar> \<le> 3 * A / 2 ^ 53 + 2 * m / 2 ^ 64 + 1 / 2 ^ 64"
    using t B1 E1 A0 m0 by simp
  have B3: "\<bar>t\<bar> \<le> 2 * A + 2 * m / 2 ^ 64 + 1 / 2 ^ 64"
    using E3 cM A0 m0 by simp
  have "\<bar>t / n - c * of_int M / n\<bar> = \<bar>t - c * of_int M\<bar> / n"
    using n0 by (simp add: abs_divide flip: diff_divide_distrib)
  also have "\<dots> \<le> (3 * A / 2 ^ 53 + 2 * m / 2 ^ 64 + 1 / 2 ^ 64) / n"
    using E3 n0 by (intro divide_right_mono) simp_all
  also have "\<dots> = 3 * X / 2 ^ 53 + 2 * Y / 2 ^ 64 + Z / 2 ^ 64"
    by (simp add: X_def Y_def Z_def add_divide_distrib)
  finally have E4: "\<bar>t / n - c * of_int M / n\<bar> \<le> 3 * X / 2 ^ 53 + 2 * Y / 2 ^ 64 + Z / 2 ^ 64" .
  have "\<bar>t / n\<bar> = \<bar>t\<bar> / n" using n0 by (simp add: abs_divide)
  also have "\<dots> \<le> (2 * A + 2 * m / 2 ^ 64 + 1 / 2 ^ 64) / n"
    using B3 n0 by (intro divide_right_mono) simp_all
  also have "\<dots> = 2 * X + 2 * Y / 2 ^ 64 + Z / 2 ^ 64"
    by (simp add: X_def Y_def Z_def add_divide_distrib)
  finally have B4: "\<bar>t / n\<bar> \<le> 2 * X + 2 * Y / 2 ^ 64 + Z / 2 ^ 64" .
  have s2: "\<bar>t / n\<bar> < 2 ^ 1000" using B4 X49 Y53 Y0 Z1 Z0 by simp
  from fl_close [OF s2] obtain q where
    fq: "fl (t / n) = Fin q" and q: "\<bar>q - t / n\<bar> \<le> \<bar>t / n\<bar> / 2 ^ 53 + 1 / 2 ^ 64" by blast
  have nn: "(of_int N :: rat) \<noteq> 0" using N0 by simp
  have res: "js_div (js_mul (fl c) (fl (of_int M))) (fl (of_int N)) = Fin q"
    using nn fq by (simp add: fc fM fN ft n_def)
  have "\<bar>q - c * of_int M / n\<bar> < 1"
    using q B4 E4 X49 X0 Y53 Y0 Z1 Z0 by simp
  with res show ?thesis by (auto simp: n_def)
qed


section \<open>Properties of block assembly\<close>

lemma universalDividend_keeps:
  "membersCount (universalDividend cnf env cur lud blk) = membersCount blk"
  "medianTime (universalDividend cnf env cur lud blk) = medianTime blk"
  "joiners (universalDividend cnf env cur lud blk) = joiners blk"
  "actives (universalDividend cnf env cur lud blk) = actives blk"
  "leavers (universalDividend cnf env cur lud blk) = leavers blk"
  "excluded (universalDividend cnf env cur lud blk) = excluded blk"
  "transactions (universalDividend cnf env cur lud blk) = transactions blk"
  "number (universalDividend cnf env cur lud blk) = number blk"
  by (simp_all add: universalDividend_def Let_def split: option.splits)

lemma createBlock_Inr:
  assumes "createBlock cnf self env current jd ld up ex lud txs = Inr b"
  shows "\<exists>blk. b = universalDividend cnf env current lud blk
           \<and> dividend blk = None
           \<and> excluded blk = ex
           \<and> joiners blk = map (\<lambda>kv. inlineMembership env (j_ms (snd kv)))
                 (filter (\<lambda>kv. \<not> member (j_identity (snd kv))) (keptJoinData ex ld jd))
           \<and> actives blk = map (\<lambda>kv. inlineMembership env (j_ms (snd kv)))
                 (filter (\<lambda>kv. member (j_identity (snd kv))) (keptJoinData ex ld jd))
           \<and> leavers blk = map (\<lambda>kv. inlineMembership env (l_ms (snd kv)))
                 (filter (\<lambda>kv. member (l_identity (snd kv))) (keptLeaveData ex ld))
           \<and> transactions blk = map (compact env) txs
           \<and> membersCount blk = (case current of Some cur \<Rightarrow> membersCount cur | None \<Rightarrow> 0)
                 + int (length (joiners blk)) - int (length (excluded blk))
           \<and> number blk = (case current of Some cur \<Rightarrow> number cur + 1 | None \<Rightarrow> 0)"
  using assms
  unfolding createBlock_def Let_def
  by (auto simp: newBlock_def split: if_splits sum.splits)

text \<open>
  C7. A block assembled on top of a parent counts the parent's members, plus the joiners
  written in the block, which are the kept join entries of non-members, minus the excluded
  keys; renewals (actives) and leavers do not enter the count.
\<close>

theorem createBlock_membersCount:
  assumes "createBlock cnf self env (Some parent) jd ld up ex lud txs = Inr b"
  shows "membersCount b = membersCount parent + int (length (joiners b)) - int (length (excluded b))
       \<and> joiners b = map (\<lambda>kv. inlineMembership env (j_ms (snd kv)))
                        (filter (\<lambda>kv. \<not> member (j_identity (snd kv))) (keptJoinData ex ld jd))
       \<and> excluded b = ex
       \<and> (joiners b = [] \<and> excluded b = [] \<longrightarrow> membersCount b = membersCount parent)"
proof -
  from createBlock_Inr [OF assms] obtain blk where
    b: "b = universalDividend cnf env (Some parent) lud blk" and
    e: "excluded blk = ex" and
    j: "joiners blk = map (\<lambda>kv. inlineMembership env (j_ms (snd kv)))
                 (filter (\<lambda>kv. \<not> member (j_identity (snd kv))) (keptJoinData ex ld jd))" and
    m: "membersCount blk = (case Some parent of Some cur \<Rightarrow> membersCount cur | None \<Rightarrow> 0)
                 + int (length (joiners blk)) - int (length (excluded blk))"
    by blast
  from b have k: "membersCount b = membersCount blk" "joiners b = joiners blk"
      "excluded b = excluded blk"
    by (simp_all add: universalDividend_keeps)
  from k m have c1: "membersCount b
      = membersCount parent + int (length (joiners b)) - int (length (excluded b))" by simp
  from k j have c2: "joiners b = map (\<lambda>kv. inlineMembership env (j_ms (snd kv)))
                        (filter (\<lambda>kv. \<not> member (j_identity (snd kv))) (keptJoinData ex ld jd))"
    by simp
  from k e have c3: "excluded b = ex" by simp
  from c1 have c4: "joiners b = [] \<and> excluded b = [] \<longrightarrow> membersCount b = membersCount parent"
    by simp
  from c1 c2 c3 c4 show ?thesis by (intro conjI)
qed

lemma sample_kept:
  "keptJoinData [''K''] [(''L'', sampleLeave ''L'')] sampleJoinData
     = [(''N1'', sampleJoin ''N1'' False), (''A'', sampleJoin ''A'' True), (''N2'', sampleJoin ''N2'' False)]"
  by (simp add: keptJoinData_def keptLeaveData_def withoutExcluded_def obj_delete_def obj_keys_def
      sampleJoinData_def)

lemma sample_created:
  "\<exists>b. createBlock sampleConf ''me'' sampleEnv (Some sampleParent) sampleJoinData
          [(''L'', sampleLeave ''L'')] [] [''K''] (Some sampleUDBlock) [] = Inr b"
  unfolding createBlock_def Let_def
  by (simp add: sampleEnv_def)

theorem createBlock_membersCount_witness:
  "\<exists>b. createBlock sampleConf ''me'' sampleEnv (Some sampleParent) sampleJoinData
          [(''L'', sampleLeave ''L'')] [] [''K''] (Some sampleUDBlock) [] = Inr b
       \<and> joiners b = [''N1'', ''N2''] \<and> excluded b = [''K''] \<and> membersCount b = 11"
proof -
  from sample_created obtain b where
    b: "createBlock sampleConf ''me'' sampleEnv (Some sampleParent) sampleJoinData
          [(''L'', sampleLeave ''L'')] [] [''K''] (Some sampleUDBlock) [] = Inr b" by blast
  from createBlock_membersCount [OF b]
  have "joiners b = [''N1'', ''N2'']" and "excluded b = [''K'']"
    and "membersCount b = membersCount sampleParent + int (length (joiners b)) - int (length (excluded b))"
    by (simp_all add: sample_kept sampleJoin_def sampleEnv_def)
  moreover have "membersCount sampleParent = 10" by (simp add: sampleParent_def)
  ultimately show ?thesis using b by simp
qed

text \<open>Two roundings of the double arithmetic: \<^verbatim>\<open>0.1 * 3\<close> is a tie, rounded to the even
  significand (\<^verbatim>\<open>0.30000000000000004\<close>), and \<open>2^53 + 1\<close> is not a double.\<close>

lemma js_mul_tenth_three: "js_mul (fl (1 / 10)) (Fin 3) = Fin (5404319552844596 / 2 ^ 54)"
  by code_simp

lemma fl_two_53_plus_one: "fl (2 ^ 53 + 1) = Fin (2 ^ 53)"
  by code_simp

text \<open>
  C6. An assembled block carries a dividend exactly when there is a current block and the
  last dividend time (that of the last dividend block, else of the root block) plus \<open>dt\<close> is at
  most the block's median time. The dividend is then
  \<^verbatim>\<open>Math.ceil(Math.max(previousUD, c * M / N))\<close> in double arithmetic, the product and
  the quotient each rounded to the nearest double, with \<open>M\<close> the monetary mass of the current
  block (0 when it has none), \<open>N\<close> the block's \<open>membersCount\<close> and \<open>previousUD\<close> the dividend
  of the last dividend block (\<open>ud0\<close> without one). When \<open>previousUD\<close> is a finite number \<open>p\<close>,
  \<open>\<bar>c\<bar> \<le> 1\<close>, \<open>\<bar>M\<bar> < 2^53\<close>, \<open>0 < N < 2^53\<close> and \<open>\<bar>c * M / N\<bar> \<le> 2^49\<close>, it is an integer at
  most 1 away from \<open>\<lceil>max p (c * M / N)\<rceil>\<close>.
\<close>

theorem createBlock_dividend:
  assumes cb: "createBlock cnf self env current jd ld up ex lud txs = Inr b"
  shows "(dividend b \<noteq> None \<longleftrightarrow>
            current \<noteq> None
            \<and> (\<exists>lastUDTime. lastUDTimeOf env lud = Some lastUDTime
                  \<and> lastUDTime + conf_dt cnf \<le> medianTime b))
       \<and> (\<forall>cur. current = Some cur \<and> dividend b \<noteq> None \<longrightarrow>
             dividend b = Some (js_ceil (js_max
                    (case lud of
                       Some ud \<Rightarrow> (case dividend ud of None \<Rightarrow> NaN | Some d \<Rightarrow> d)
                     | None \<Rightarrow> fl (of_int (conf_ud0 cnf)))
                    (js_div
                       (js_mul (fl (conf_c cnf))
                          (fl (of_int (case monetaryMass cur of None \<Rightarrow> 0 | Some mass \<Rightarrow> mass))))
                       (fl (of_int (membersCount b)))))))
       \<and> (\<forall>cur p M. current = Some cur \<and> dividend b \<noteq> None
             \<and> (case lud of
                   Some ud \<Rightarrow> (case dividend ud of None \<Rightarrow> NaN | Some d \<Rightarrow> d)
                 | None \<Rightarrow> fl (of_int (conf_ud0 cnf))) = Fin p
             \<and> (case monetaryMass cur of None \<Rightarrow> 0 | Some mass \<Rightarrow> mass) = M
             \<and> \<bar>conf_c cnf\<bar> \<le> 1 \<and> \<bar>M\<bar> < 2 ^ 53
             \<and> 0 < membersCount b \<and> membersCount b < 2 ^ 53
             \<and> \<bar>conf_c cnf * of_int M / of_int (membersCount b)\<bar> \<le> 2 ^ 49 \<longrightarrow>
             (\<exists>d. dividend b = Some (Fin (of_int d))
                \<and> \<bar>d - \<lceil>max p (conf_c cnf * of_int M / of_int (membersCount b))\<rceil>\<bar> \<le> 1))"
proof -
  from createBlock_Inr [OF cb] obtain blk where
    b: "b = universalDividend cnf env current lud blk" and d: "dividend blk = None" by blast
  have mc: "membersCount b = membersCount blk" by (simp add: b universalDividend_keeps)
  have mt: "medianTime b = medianTime blk" by (simp add: b universalDividend_keeps)
  have c1: "dividend b \<noteq> None \<longleftrightarrow>
            current \<noteq> None
            \<and> (\<exists>lastUDTime. lastUDTimeOf env lud = Some lastUDTime
                  \<and> lastUDTime + conf_dt cnf \<le> medianTime b)"
  proof (cases current)
    case None
    with b d show ?thesis by (simp add: universalDividend_def split: option.splits)
  next
    case (Some cur)
    with b d show ?thesis
      by (cases "lastUDTimeOf env lud") (simp_all add: universalDividend_def Let_def)
  qed
  have c2: "dividend b = Some (js_ceil (js_max
                    (case lud of
                       Some ud \<Rightarrow> (case dividend ud of None \<Rightarrow> NaN | Some d \<Rightarrow> d)
                     | None \<Rightarrow> fl (of_int (conf_ud0 cnf)))
                    (js_div
                       (js_mul (fl (conf_c cnf))
                          (fl (of_int (case monetaryMass cur of None \<Rightarrow> 0 | Some mass \<Rightarrow> mass))))
                       (fl (of_int (membersCount b))))))"
    if "current = Some cur" and "dividend b \<noteq> None" for cur
  proof (cases "lastUDTimeOf env lud")
    case None
    with b d that show ?thesis by (simp add: universalDividend_def)
  next
    case (Some t)
    with b d that show ?thesis
      by (simp add: universalDividend_def dividendValue_def Let_def mc split: if_splits)
  qed
  have c3: "\<exists>k. dividend b = Some (Fin (of_int k))
                \<and> \<bar>k - \<lceil>max p (conf_c cnf * of_int M / of_int (membersCount b))\<rceil>\<bar> \<le> 1"
    if cur: "current = Some cur" and pres: "dividend b \<noteq> None"
      and p: "(case lud of
                   Some ud \<Rightarrow> (case dividend ud of None \<Rightarrow> NaN | Some d \<Rightarrow> d)
                 | None \<Rightarrow> fl (of_int (conf_ud0 cnf))) = Fin p"
      and M: "(case monetaryMass cur of None \<Rightarrow> 0 | Some mass \<Rightarrow> mass) = M"
      and bounds: "\<bar>conf_c cnf\<bar> \<le> 1" "\<bar>M\<bar> < 2 ^ 53" "0 < membersCount b"
         "membersCount b < 2 ^ 53"
         "\<bar>conf_c cnf * of_int M / of_int (membersCount b)\<bar> \<le> 2 ^ 49"
    for cur p M
  proof -
    from quotient_close [OF bounds] obtain q where
      q: "js_div (js_mul (fl (conf_c cnf)) (fl (of_int M))) (fl (of_int (membersCount b))) = Fin q"
      and close: "\<bar>q - conf_c cnf * of_int M / of_int (membersCount b)\<bar> < 1"
      by blast
    from c2 [OF cur pres] have "dividend b = Some (Fin (of_int \<lceil>max p q\<rceil>))"
      by (simp add: p M q)
    moreover from ceiling_max_close [OF close]
    have "\<bar>\<lceil>max p q\<rceil> - \<lceil>max p (conf_c cnf * of_int M / of_int (membersCount b))\<rceil>\<bar> \<le> 1" .
    ultimately show ?thesis by blast
  qed
  from c1 c2 c3 show ?thesis by blast
qed

text \<open>The two products of the sample below, and an assembly on a parent with no joiner.\<close>

lemma tight_product_value:
  "js_ceil (js_max (Fin 1) (js_div (js_mul (fl (7 / 100)) (fl 100)) (fl 1))) = Fin 8"
  by code_simp

lemma tenth_is_not_a_double:
  "fl (1 / 10) = Fin (3602879701896397 / 2 ^ 55)"
  "fl (3602879701896397 / 2 ^ 55) = Fin (3602879701896397 / 2 ^ 55)"
  by code_simp+

lemma tenth_product_value:
  "js_ceil (js_max (Fin 1) (js_div (js_mul (fl (3602879701896397 / 2 ^ 55)) (fl 10)) (fl 1))) = Fin 1"
  by code_simp

lemma createBlock_on_parent:
  "createBlock (confWith c) ''me'' sampleEnv (Some (parentWith n m)) [] [] [] [] (Some (udBlockWith p)) []
     = Inr (universalDividend (confWith c) sampleEnv (Some (parentWith n m)) (Some (udBlockWith p))
         (newBlock\<lparr>version := 1, currency := [], number := 6, previousHash := ''H5'',
            issuer := ''me'', membersCount := n, powMin := 1, medianTime := 100\<rparr>))"
  unfolding createBlock_def Let_def
  by (simp add: sampleEnv_def parentWith_def blockAt_def newBlock_def keptJoinData_def
      keptLeaveData_def keptUpdates_def withoutExcluded_def obj_keys_def)

lemma dividend_on_parent:
  "map_sum id dividend
     (createBlock (confWith c) ''me'' sampleEnv (Some (parentWith n m)) [] [] [] [] (Some (udBlockWith p)) [])
     = Inr (Some (js_ceil (js_max (Fin p) (js_div (js_mul (fl c) (fl (of_int m))) (fl (of_int n))))))"
  unfolding createBlock_on_parent
  by (simp add: universalDividend_def lastUDTimeOf_def truthy_def
      udBlockWith_def parentWith_def confWith_def sampleConf_def newBlock_def dividendValue_def
      blockAt_def)

text \<open>
  C6, as stated, fails: the dividend is not always \<open>\<lceil>max p (c * M / N)\<rceil>\<close>. With \<open>c = 0.07\<close>,
  \<open>M = 100\<close>, \<open>N = 1\<close> and a previous dividend of 1 the double product is
  \<^verbatim>\<open>7.000000000000001\<close> and the dividend 8, where the formula gives 7. Reading \<open>c\<close> as the
  double that the configuration holds does not help: with the double nearest to \<open>0.1\<close>, which
  is above \<open>0.1\<close>, and \<open>M = 10\<close> the product rounds to 1 and the dividend is 1, where the
  formula on that double gives 2.
\<close>

theorem createBlock_dividend_rounded:
  "map_sum id dividend
     (createBlock (confWith (7 / 100)) ''me'' sampleEnv (Some (parentWith 1 100)) [] [] [] []
        (Some (udBlockWith 1)) [])
     = Inr (Some (Fin 8))
   \<and> \<lceil>max (1::rat) (7 / 100 * 100 / 1)\<rceil> = 7
   \<and> map_sum id dividend
     (createBlock (confWith (3602879701896397 / 2 ^ 55)) ''me'' sampleEnv (Some (parentWith 1 10)) [] [] [] []
        (Some (udBlockWith 1)) [])
     = Inr (Some (Fin 1))
   \<and> \<lceil>max (1::rat) (3602879701896397 / 2 ^ 55 * 10 / 1)\<rceil> = 2"
proof -
  have "\<lceil>max (1::rat) (7 / 100 * 100 / 1)\<rceil> = 7" by simp
  moreover have "\<lceil>max (1::rat) (3602879701896397 / 2 ^ 55 * 10 / 1)\<rceil> = 2"
    by (simp add: max_def ceiling_eq_iff)
  moreover note dividend_on_parent [of "7 / 100" 1 100 1] tight_product_value
    dividend_on_parent [of "3602879701896397 / 2 ^ 55" 1 10 1] tenth_product_value
  ultimately show ?thesis by simp
qed

text \<open>The sample assembly: \<open>c = 0.1\<close>, \<open>M = 30000\<close>, \<open>N = 11\<close>, previous dividend 100.\<close>

lemma sample_created_fields:
  "\<exists>b. createBlock sampleConf ''me'' sampleEnv (Some sampleParent) sampleJoinData
          [(''L'', sampleLeave ''L'')] [] [''K''] (Some sampleUDBlock) [] = Inr b
       \<and> medianTime b = 100 \<and> membersCount b = 11"
  unfolding createBlock_def Let_def
  by (simp add: sampleEnv_def universalDividend_keeps sample_kept sampleJoin_def sampleParent_def
      blockAt_def)

lemma sample_dividend_value:
  "js_ceil (js_max (Fin 100) (js_div (js_mul (fl (1 / 10)) (fl 30000)) (fl 11))) = Fin 273"
  by code_simp

theorem createBlock_dividend_witness:
  "\<exists>b. createBlock sampleConf ''me'' sampleEnv (Some sampleParent) sampleJoinData
          [(''L'', sampleLeave ''L'')] [] [''K''] (Some sampleUDBlock) [] = Inr b
       \<and> lastUDTimeOf sampleEnv (Some sampleUDBlock) = Some 50
       \<and> 50 + conf_dt sampleConf \<le> medianTime b
       \<and> membersCount b = 11
       \<and> \<lceil>max (100::rat) (1 / 10 * 30000 / 11)\<rceil> = 273
       \<and> (\<exists>d. dividend b = Some (Fin (of_int d)) \<and> \<bar>d - 273\<bar> \<le> 1)
       \<and> dividend b = Some (Fin 273)"
proof -
  from sample_created_fields obtain b where
    b: "createBlock sampleConf ''me'' sampleEnv (Some sampleParent) sampleJoinData
          [(''L'', sampleLeave ''L'')] [] [''K''] (Some sampleUDBlock) [] = Inr b"
    and mt: "medianTime b = 100" and mc: "membersCount b = 11" by blast
  have lt: "lastUDTimeOf sampleEnv (Some sampleUDBlock) = Some 50"
    by (simp add: lastUDTimeOf_def truthy_def sampleUDBlock_def blockAt_def newBlock_def)
  have le: "50 + conf_dt sampleConf \<le> medianTime b" using mt by (simp add: sampleConf_def)
  have ce: "\<lceil>max (100::rat) (1 / 10 * 30000 / 11)\<rceil> = 273"
    by (simp add: max_def ceiling_eq_iff)
  note main = createBlock_dividend [OF b]
  from main [THEN conjunct1] lt le have present: "dividend b \<noteq> None" by blast
  from main [THEN conjunct2, THEN conjunct1, rule_format, of sampleParent] present
  have "dividend b = Some (js_ceil (js_max
                    (case Some sampleUDBlock of
                       Some ud \<Rightarrow> (case dividend ud of None \<Rightarrow> NaN | Some d \<Rightarrow> d)
                     | None \<Rightarrow> fl (of_int (conf_ud0 sampleConf)))
                    (js_div
                       (js_mul (fl (conf_c sampleConf))
                          (fl (of_int (case monetaryMass sampleParent of None \<Rightarrow> 0 | Some mass \<Rightarrow> mass))))
                       (fl (of_int (membersCount b))))))"
    by blast
  then have "dividend b = Some (js_ceil (js_max (Fin 100)
                 (js_div (js_mul (fl (1 / 10)) (fl 30000)) (fl 11))))"
    by (simp add: mc sampleUDBlock_def sampleParent_def sampleConf_def blockAt_def)
  with sample_dividend_value have val: "dividend b = Some (Fin 273)" by simp
  have pu: "(case Some sampleUDBlock of
                   Some ud \<Rightarrow> (case dividend ud of None \<Rightarrow> NaN | Some d \<Rightarrow> d)
                 | None \<Rightarrow> fl (of_int (conf_ud0 sampleConf))) = Fin 100"
    by (simp add: sampleUDBlock_def)
  have mass: "(case monetaryMass sampleParent of None \<Rightarrow> 0 | Some mass \<Rightarrow> mass) = 30000"
    by (simp add: sampleParent_def)
  have c: "conf_c sampleConf = 1 / 10" by (simp add: sampleConf_def)
  have bounds: "\<bar>conf_c sampleConf\<bar> \<le> 1" "\<bar>30000 :: int\<bar> < 2 ^ 53" "0 < membersCount b"
    "membersCount b < 2 ^ 53"
    "\<bar>conf_c sampleConf * of_int 30000 / of_int (membersCount b)\<bar> \<le> 2 ^ 49"
    by (simp_all add: c mc)
  from main [THEN conjunct2, THEN conjunct2, rule_format, of sampleParent 100 30000]
    present pu mass bounds
  have "\<exists>d. dividend b = Some (Fin (of_int d))
          \<and> \<bar>d - \<lceil>max 100 (conf_c sampleConf * of_int 30000 / of_int (membersCount b))\<rceil>\<bar> \<le> 1"
    by blast
  then have near: "\<exists>d. dividend b = Some (Fin (of_int d)) \<and> \<bar>d - 273\<bar> \<le> 1"
    using ce by (simp add: c mc)
  from b lt le mc ce near val show ?thesis by blast
qed

lemma fold_obj_delete_Nil: "fold obj_delete ks [] = []"
  by (induction ks) (simp_all add: obj_delete_def)

lemma keptJoinData_Nil: "keptJoinData ex ld [] = []"
  by (simp add: keptJoinData_def withoutExcluded_def fold_obj_delete_Nil)

text \<open>
  C10. With no current block and no join entry left after the exclusions and the leavers are
  taken out, \<^verbatim>\<open>createBlock\<close> throws "Wrong new block: cannot make a root block without
  members", and so do \<^verbatim>\<open>generateNextBlock\<close> and \<^verbatim>\<open>generateEmptyNextBlock\<close>; no block is produced.
\<close>

theorem createBlock_root_without_members:
  "(obj_keys (keptJoinData ex ld jd) = [] \<longrightarrow>
      createBlock cnf self env None jd ld up ex lud txs = Inl ErrRootWithoutMembers
      \<and> generateNextBlock cnf self env None lud ex wot jd ld fromNewcomers txs
            = Inl ErrRootWithoutMembers)
   \<and> generateEmptyNextBlock cnf self env None lud ex = Inl ErrRootWithoutMembers"
proof -
  have root: "createBlock cnf self env None jd' ld' up' ex' lud' txs' = Inl ErrRootWithoutMembers"
    if "obj_keys (keptJoinData ex' ld' jd') = []" for jd' ld' up' ex' lud' txs'
    using that unfolding createBlock_def Let_def by simp
  have "generateEmptyNextBlock cnf self env None lud ex = Inl ErrRootWithoutMembers"
    unfolding generateEmptyNextBlock_def
    by (rule root) (simp add: keptJoinData_Nil obj_keys_def)
  moreover have "generateNextBlock cnf self env None lud ex wot jd ld fromNewcomers txs
            = Inl ErrRootWithoutMembers" if "obj_keys (keptJoinData ex ld jd) = []"
    unfolding generateNextBlock_def Let_def by (rule root) (rule that)
  ultimately show ?thesis using root by blast
qed

theorem createBlock_root_without_members_witness:
  "obj_keys (keptJoinData [''K''] [] [(''K'', sampleJoin ''K'' False)]) = []
   \<and> createBlock sampleConf ''me'' sampleEnv None [(''K'', sampleJoin ''K'' False)] [] []
         [''K''] None [] = Inl ErrRootWithoutMembers
   \<and> generateEmptyNextBlock sampleConf ''me'' sampleEnv None None [] = Inl ErrRootWithoutMembers"
proof -
  have k: "obj_keys (keptJoinData [''K''] [] [(''K'', sampleJoin ''K'' False)]) = []"
    by (simp add: keptJoinData_def keptLeaveData_def withoutExcluded_def obj_delete_def obj_keys_def)
  from createBlock_root_without_members
         [of "[''K'']" "[]" "[(''K'', sampleJoin ''K'' False)]" sampleConf "''me''" sampleEnv
             "[]" None "[]" "[]" "[]"] k
  show ?thesis
    using createBlock_root_without_members [of "[]" "[]" "[]" sampleConf "''me''" sampleEnv
             "[]" None "[]" "[]" "[]"]
    by simp
qed

section \<open>Properties of the selection of transactions\<close>

lemma txLoop_append:
  "txLoop v rm (xs @ ys) s = (case txLoop v rm xs s of Inl e \<Rightarrow> Inl e | Inr s' \<Rightarrow> txLoop v rm ys s')"
proof (induction xs arbitrary: s)
  case Nil
  show ?case by simp
next
  case (Cons x xs)
  obtain p pool where s: "s = (p, pool)" by (cases s)
  show ?case unfolding s by (simp add: Cons.IH split: option.splits sum.splits)
qed

lemma createBlock_transactions:
  assumes "createBlock cnf self env current jd ld up ex lud txs = Inr b"
  shows "transactions b = map (compact env) txs"
proof -
  from createBlock_Inr [OF assms] obtain blk where
    "b = universalDividend cnf env current lud blk" and "transactions blk = map (compact env) txs"
    by blast
  then show ?thesis by (simp add: universalDividend_keeps)
qed

lemma txLoop_total:
  assumes "\<forall>p h. \<exists>p'. removeTx p h = Inr p'"
  shows "\<exists>txs pool'. txLoop v removeTx xs (p, pool) = Inr (txs, pool')"
proof (induction xs arbitrary: p pool)
  case Nil
  show ?case by simp
next
  case (Cons x xs)
  show ?case
  proof (cases "validateTx v p x")
    case None
    with Cons.IH [of "p @ [x]" pool] show ?thesis by simp
  next
    case (Some err)
    from assms obtain pool1 where "removeTx pool (tx_hash x) = Inr pool1" by blast
    with Some Cons.IH [of p pool1] show ?thesis by simp
  qed
qed

lemma txLoop_subsets:
  assumes "\<forall>p h p'. removeTx p h = Inr p' \<longrightarrow> p' = filter (\<lambda>u. tx_hash u \<noteq> h) p"
  shows "txLoop v removeTx xs (p, pool) = Inr (txs, pool') \<Longrightarrow>
     set txs \<subseteq> set p \<union> set xs \<and> set pool' \<subseteq> set pool"
proof (induction xs arbitrary: p pool)
  case Nil
  then show ?case by simp
next
  case (Cons x xs)
  show ?case
  proof (cases "validateTx v p x")
    case None
    with Cons.prems have "txLoop v removeTx xs (p @ [x], pool) = Inr (txs, pool')" by simp
    from Cons.IH [OF this] show ?thesis by auto
  next
    case (Some err)
    show ?thesis
    proof (cases "removeTx pool (tx_hash x)")
      case (Inl e)
      with Some Cons.prems show ?thesis by simp
    next
      case (Inr pool1)
      with assms have p1: "pool1 = filter (\<lambda>u. tx_hash u \<noteq> tx_hash x) pool" by blast
      from Some Inr Cons.prems have "txLoop v removeTx xs (p, pool1) = Inr (txs, pool')" by simp
      from Cons.IH [OF this] p1 show ?thesis by auto
    qed
  qed
qed

text \<open>
  C9. When a pending transaction fails the local validation of the bunch or the global
  validation on its turn, \<^verbatim>\<open>findTransactions\<close> asks the DAL to remove it by hash. If the
  removal fails, the selection is rejected with the removal's error. If it succeeds, the
  transaction is out of the pending pool and the selection goes on with the transactions
  after it. A selection that ends with a result has the transaction neither in the result nor
  in the pool it leaves, and the selection does end with a result when no removal fails. The
  assembled block carries exactly the selected transactions (\<open>createBlock_transactions\<close>).
  Pending transactions have distinct hashes, and a removal that succeeds is the deletion by
  hash.
\<close>

theorem findTransactions_drops_failing:
  assumes pend: "pending = before @ t # rest"
    and dist: "distinct (map tx_hash pending)"
    and reach: "txLoop v removeTx before ([], pending) = Inr (passingTxs, pool)"
    and fails: "checkBunchOfTransactions v (passingTxs @ [t]) \<noteq> None
                \<or> checkSingleTransaction v t \<noteq> None"
    and deletes: "\<forall>p h p'. removeTx p h = Inr p' \<longrightarrow> p' = filter (\<lambda>u. tx_hash u \<noteq> h) p"
  shows "(\<forall>e. removeTx pool (tx_hash t) = Inl e \<longrightarrow>
            findTransactions v removeTx pending = Inl e)
       \<and> (\<forall>pool1. removeTx pool (tx_hash t) = Inr pool1 \<longrightarrow>
            tx_hash t \<notin> tx_hash ` set pool1
          \<and> findTransactions v removeTx pending = txLoop v removeTx rest (passingTxs, pool1))
       \<and> (\<forall>txs pool'. findTransactions v removeTx pending = Inr (txs, pool') \<longrightarrow>
            tx_hash t \<notin> tx_hash ` set txs \<and> tx_hash t \<notin> tx_hash ` set pool')
       \<and> ((\<forall>p h. \<exists>p'. removeTx p h = Inr p') \<longrightarrow>
            (\<exists>txs pool'. findTransactions v removeTx pending = Inr (txs, pool')))"
proof -
  from fails have "validateTx v passingTxs t \<noteq> None"
    by (auto simp: validateTx_def split: option.splits)
  then obtain err where inv: "validateTx v passingTxs t = Some err" by blast
  have run: "findTransactions v removeTx pending = txLoop v removeTx (t # rest) (passingTxs, pool)"
    unfolding findTransactions_def using reach by (simp add: txLoop_append pend)
  have c1: "findTransactions v removeTx pending = Inl e"
    if "removeTx pool (tx_hash t) = Inl e" for e
    using that inv by (simp add: run)
  have c2a: "tx_hash t \<notin> tx_hash ` set pool1"
    if "removeTx pool (tx_hash t) = Inr pool1" for pool1
  proof -
    from deletes that have "pool1 = filter (\<lambda>u. tx_hash u \<noteq> tx_hash t) pool" by blast
    then show ?thesis by auto
  qed
  have c2b: "findTransactions v removeTx pending = txLoop v removeTx rest (passingTxs, pool1)"
    if "removeTx pool (tx_hash t) = Inr pool1" for pool1
    using that inv by (simp add: run)
  have c3: "tx_hash t \<notin> tx_hash ` set txs \<and> tx_hash t \<notin> tx_hash ` set pool'"
    if res: "findTransactions v removeTx pending = Inr (txs, pool')" for txs pool'
  proof (cases "removeTx pool (tx_hash t)")
    case (Inl e)
    from c1 [OF this] res show ?thesis by simp
  next
    case (Inr pool1)
    from c2b [OF this] res have r: "txLoop v removeTx rest (passingTxs, pool1) = Inr (txs, pool')"
      by simp
    from txLoop_subsets [OF deletes r]
    have s1: "set txs \<subseteq> set passingTxs \<union> set rest" and s2: "set pool' \<subseteq> set pool1" by simp_all
    from txLoop_subsets [OF deletes reach] have s3: "set passingTxs \<subseteq> set before" by simp
    from dist pend have "tx_hash t \<notin> tx_hash ` (set before \<union> set rest)" by auto
    with s1 s3 have a: "tx_hash t \<notin> tx_hash ` set txs" by blast
    from s2 c2a [OF Inr] have b: "tx_hash t \<notin> tx_hash ` set pool'" by blast
    from a b show ?thesis by simp
  qed
  have c4: "\<exists>txs pool'. findTransactions v removeTx pending = Inr (txs, pool')"
    if "\<forall>p h. \<exists>p'. removeTx p h = Inr p'"
    unfolding findTransactions_def by (rule txLoop_total [OF that])
  from c1 c2a c2b c3 c4 show ?thesis by blast
qed

text \<open>
  C9, as stated, fails: the failure of a transaction can abort the selection. With a DAL that
  is out of service when the refused \<open>T2\<close> is to be removed, the selection is rejected and
  \<open>T3\<close> is never examined.
\<close>

theorem findTransactions_failed_removal_aborts:
  "validateTx sampleValidation [sampleTx ''T1''] (sampleTx ''T2'')
     = Some (Err ''Source already consumed'')
   \<and> findTransactions sampleValidation failingRemoveTx
         [sampleTx ''T1'', sampleTx ''T2'', sampleTx ''T3'']
       = Inl (Err ''db down'')"
proof -
  let ?pending = "[sampleTx ''T1'', sampleTx ''T2'', sampleTx ''T3'']"
  have first: "validateTx sampleValidation [] (sampleTx ''T1'') = None"
    by (simp add: validateTx_def sampleValidation_def sampleTx_def)
  have second: "validateTx sampleValidation [sampleTx ''T1''] (sampleTx ''T2'')
      = Some (Err ''Source already consumed'')"
    by (simp add: validateTx_def sampleValidation_def sampleTx_def)
  have refused: "failingRemoveTx ?pending (tx_hash (sampleTx ''T2'')) = Inl (Err ''db down'')"
    by (simp add: failingRemoveTx_def)
  have "findTransactions sampleValidation failingRemoveTx ?pending = Inl (Err ''db down'')"
    unfolding findTransactions_def by (simp add: first second refused)
  with second show ?thesis by simp
qed

text \<open>The same three transactions with a DAL that deletes, and with one that is out of service.\<close>

theorem findTransactions_drops_failing_witness:
  "distinct (map tx_hash [sampleTx ''T1'', sampleTx ''T2'', sampleTx ''T3''])
   \<and> txLoop sampleValidation deletingRemoveTx [sampleTx ''T1'']
         ([], [sampleTx ''T1'', sampleTx ''T2'', sampleTx ''T3''])
       = Inr ([sampleTx ''T1''], [sampleTx ''T1'', sampleTx ''T2'', sampleTx ''T3''])
   \<and> checkSingleTransaction sampleValidation (sampleTx ''T2'') \<noteq> None
   \<and> deletingRemoveTx [sampleTx ''T1'', sampleTx ''T2'', sampleTx ''T3''] ''T2''
       = Inr [sampleTx ''T1'', sampleTx ''T3'']
   \<and> findTransactions sampleValidation deletingRemoveTx
         [sampleTx ''T1'', sampleTx ''T2'', sampleTx ''T3'']
       = Inr ([sampleTx ''T1'', sampleTx ''T3''], [sampleTx ''T1'', sampleTx ''T3''])
   \<and> failingRemoveTx [sampleTx ''T1'', sampleTx ''T2'', sampleTx ''T3''] ''T2''
       = Inl (Err ''db down'')
   \<and> findTransactions sampleValidation failingRemoveTx
         [sampleTx ''T1'', sampleTx ''T2'', sampleTx ''T3'']
       = Inl (Err ''db down'')"
proof -
  let ?pending = "[sampleTx ''T1'', sampleTx ''T2'', sampleTx ''T3'']"
  have pend: "?pending = [sampleTx ''T1''] @ sampleTx ''T2'' # [sampleTx ''T3'']" by simp
  have dist: "distinct (map tx_hash ?pending)" by (simp add: sampleTx_def)
  have fails: "checkBunchOfTransactions sampleValidation ([sampleTx ''T1''] @ [sampleTx ''T2'']) \<noteq> None
      \<or> checkSingleTransaction sampleValidation (sampleTx ''T2'') \<noteq> None"
    by (simp add: sampleValidation_def sampleTx_def)
  have reach: "txLoop sampleValidation rm [sampleTx ''T1''] ([], ?pending)
      = Inr ([sampleTx ''T1''], ?pending)" for rm
    by (simp add: validateTx_def sampleValidation_def sampleTx_def)
  have del: "\<forall>p h p'. deletingRemoveTx p h = Inr p' \<longrightarrow> p' = filter (\<lambda>u. tx_hash u \<noteq> h) p"
    by (simp add: deletingRemoveTx_def)
  have nodel: "\<forall>p h p'. failingRemoveTx p h = Inr p' \<longrightarrow> p' = filter (\<lambda>u. tx_hash u \<noteq> h) p"
    by (simp add: failingRemoveTx_def)
  have total: "\<forall>p h. \<exists>p'. deletingRemoveTx p h = Inr p'" by (simp add: deletingRemoveTx_def)
  have removed: "deletingRemoveTx ?pending (tx_hash (sampleTx ''T2''))
      = Inr [sampleTx ''T1'', sampleTx ''T3'']"
    by (simp add: deletingRemoveTx_def sampleTx_def)
  have refused: "failingRemoveTx ?pending (tx_hash (sampleTx ''T2'')) = Inl (Err ''db down'')"
    by (simp add: failingRemoveTx_def)
  have rest: "txLoop sampleValidation deletingRemoveTx [sampleTx ''T3'']
        ([sampleTx ''T1''], [sampleTx ''T1'', sampleTx ''T3''])
      = Inr ([sampleTx ''T1'', sampleTx ''T3''], [sampleTx ''T1'', sampleTx ''T3''])"
    by (simp add: validateTx_def sampleValidation_def sampleTx_def)
  note ok = findTransactions_drops_failing [OF pend dist reach fails del]
  note ko = findTransactions_drops_failing [OF pend dist reach fails nodel]
  from ok [THEN conjunct2, THEN conjunct1, rule_format, OF removed] rest
  have found: "findTransactions sampleValidation deletingRemoveTx ?pending
      = Inr ([sampleTx ''T1'', sampleTx ''T3''], [sampleTx ''T1'', sampleTx ''T3''])"
    by simp
  from ok [THEN conjunct2, THEN conjunct2, THEN conjunct2, THEN mp, OF total]
  have "\<exists>txs pool'. findTransactions sampleValidation deletingRemoveTx ?pending = Inr (txs, pool')" .
  from ko [THEN conjunct1, rule_format, OF refused]
  have aborted: "findTransactions sampleValidation failingRemoveTx ?pending = Inl (Err ''db down'')" .
  have f2: "checkSingleTransaction sampleValidation (sampleTx ''T2'') \<noteq> None"
    by (simp add: sampleValidation_def sampleTx_def)
  have h: "tx_hash (sampleTx ''T2'') = ''T2''" by (simp add: sampleTx_def)
  from dist reach [of deletingRemoveTx] f2 removed refused found aborted
  show ?thesis unfolding h by (intro conjI)
qed

section \<open>Properties of fork management\<close>

lemma blockAt_fields [simp]:
  "number (blockAt n h p) = n" "hash (blockAt n h p) = h" "previousHash (blockAt n h p) = p"
  by (simp_all add: blockAt_def)

lemma coreAt_fields [simp]:
  "forkPointNumber (coreAt n h p) = n" "forkPointHash (coreAt n h p) = h"
  "forkPointPreviousHash (coreAt n h p) = p" "coreCurrent (coreAt n h p) = blockAt n h p"
  by (simp_all add: coreAt_def)

lemma coreAt_eq_iff [simp]:
  "coreAt n h p = coreAt n' h' p' \<longleftrightarrow> n = n' \<and> h = h' \<and> p = p'"
  by (auto simp: coreAt_def blockAt_def)

lemma core_of_blockAt [simp]:
  "\<lparr> forkPointNumber = n, forkPointHash = h, forkPointPreviousHash = p,
     coreCurrent = blockAt n h p \<rparr> = coreAt n h p"
  by (simp add: coreAt_def)

lemmas fork_defs = submitBlock_def basedCore_def getCore_def forkAndAddCore_def shift_def
  startPruning_def toPruneCount_def branchSize_def promoteCore_def spliceOut_def sortBy_def
  getCurrentBlockOrNull_def acceptingOps_def Let_def eval_nat_numeral

text \<open>The submissions of the sample, one at a time.\<close>

lemma first_core:
  "submitBlock acceptingOps 3 confirmedAt10 b11a True
     = (Inr b11a, \<lparr> st_cores = [coreAt 11 ''A11'' ''H10''], st_chain = [b10] \<rparr>)"
  by (simp add: fork_defs confirmedAt10_def b10_def b11a_def)

lemma line_step1:
  "submitBlock acceptingOps 2 confirmedAt10 b11a True
     = (Inr b11a, \<lparr> st_cores = [coreAt 11 ''A11'' ''H10''], st_chain = [b10] \<rparr>)"
  by (simp add: fork_defs confirmedAt10_def b10_def b11a_def)

lemma line_step2:
  "submitBlock acceptingOps 2
     \<lparr> st_cores = [coreAt 11 ''A11'' ''H10''], st_chain = [b10] \<rparr> b12a True
   = (Inr b12a, \<lparr> st_cores = [coreAt 11 ''A11'' ''H10'', coreAt 12 ''A12'' ''A11''],
                   st_chain = [b10] \<rparr>)"
  by (simp add: fork_defs b10_def b12a_def)

lemma line_step3:
  "submitBlock acceptingOps 2
     \<lparr> st_cores = [coreAt 11 ''A11'' ''H10'', coreAt 12 ''A12'' ''A11''], st_chain = [b10] \<rparr>
     b12b True
   = (Inr b12b, \<lparr> st_cores = [coreAt 11 ''A11'' ''H10'', coreAt 12 ''A12'' ''A11'',
                                coreAt 12 ''B12'' ''A11''],
                   st_chain = [b10] \<rparr>)"
  by (simp add: fork_defs b10_def b12b_def)

lemma line_step4:
  "submitBlock acceptingOps 2
     \<lparr> st_cores = [coreAt 11 ''A11'' ''H10'', coreAt 12 ''A12'' ''A11'', coreAt 12 ''B12'' ''A11''],
       st_chain = [b10] \<rparr> b13b True
   = (Inr b13b, \<lparr> st_cores = [coreAt 12 ''A12'' ''A11'', coreAt 12 ''B12'' ''A11'',
                                coreAt 13 ''B13'' ''B12''],
                   st_chain = [b10, b11a] \<rparr>)"
  by (simp add: fork_defs b10_def b11a_def b13b_def)

lemma line_step5:
  "submitBlock acceptingOps 2
     \<lparr> st_cores = [coreAt 12 ''A12'' ''A11'', coreAt 12 ''B12'' ''A11'', coreAt 13 ''B13'' ''B12''],
       st_chain = [b10, b11a] \<rparr> b13a True
   = (Inr b13a, \<lparr> st_cores = [coreAt 12 ''A12'' ''A11'', coreAt 12 ''B12'' ''A11'',
                                coreAt 13 ''B13'' ''B12'', coreAt 13 ''A13'' ''A12''],
                   st_chain = [b10, b11a] \<rparr>)"
  by (simp add: fork_defs b10_def b11a_def b13a_def)

lemma line_step6:
  "submitBlock acceptingOps 2
     \<lparr> st_cores = [coreAt 12 ''A12'' ''A11'', coreAt 12 ''B12'' ''A11'',
                   coreAt 13 ''B13'' ''B12'', coreAt 13 ''A13'' ''A12''],
       st_chain = [b10, b11a] \<rparr> b14a True
   = (Inr b14a,
      \<lparr> st_cores = [coreAt 12 ''B12'' ''A11'', coreAt 13 ''B13'' ''B12'',
                    coreAt 13 ''A13'' ''A12'', coreAt 14 ''A14'' ''A13''],
        st_chain = [b10, b11a, b12a] \<rparr>)"
  by (simp add: fork_defs b10_def b11a_def b12a_def b14a_def)

lemma visit_A14:
  "pruneForks (coreAt 14 ''A14'' ''A13'') [coreAt 12 ''B12'' ''A11'', coreAt 13 ''A13'' ''A12''] = []"
  by (subst pruneForks.simps) (simp add: isOrphanOf_def Let_def)

lemma visit_B13:
  "pruneForks (coreAt 13 ''B13'' ''B12'')
     [coreAt 12 ''B12'' ''A11'', coreAt 13 ''A13'' ''A12'', coreAt 14 ''A14'' ''A13'']
   = [coreAt 14 ''A14'' ''A13'']"
  by (subst pruneForks.simps) (simp add: isOrphanOf_def Let_def without_def visit_A14)

lemma visit_A12:
  "pruneForks (coreAt 12 ''A12'' ''A11'')
     [coreAt 12 ''B12'' ''A11'', coreAt 13 ''B13'' ''B12'',
      coreAt 13 ''A13'' ''A12'', coreAt 14 ''A14'' ''A13'']
   = [coreAt 13 ''B13'' ''B12'', coreAt 14 ''A14'' ''A13'']"
  by (subst pruneForks.simps) (simp add: isOrphanOf_def Let_def without_def visit_B13)

text \<open>
  C4, as the code has it. When at least one core exists, \<^verbatim>\<open>submitBlock\<close> finds a parent exactly
  when some core has number \<open>B.number - 1\<close> and hash \<open>B.previousHash\<close>, and the parent is such
  a core; the confirmed tip is not looked at. Without such a core the submission fails with
  "Previous block not found" and changes nothing: no core is registered.
\<close>

theorem submitBlock_parent_among_cores:
  assumes "st_cores st \<noteq> []"
  shows "(basedCore st obj \<noteq> None \<longleftrightarrow>
            (\<exists>c\<in>set (st_cores st). forkPointNumber c = number obj - 1
                                     \<and> forkPointHash c = previousHash obj))
       \<and> (\<forall>based. basedCore st obj = Some based \<longrightarrow>
            (\<exists>c\<in>set (st_cores st). based = CoreContext c
                \<and> forkPointNumber c = number obj - 1 \<and> forkPointHash c = previousHash obj))
       \<and> (basedCore st obj = None \<longrightarrow>
            submitBlock ops forkWindowSize st obj doCheck = (Inl ErrPreviousNotFound, st))"
proof -
  let ?P = "\<lambda>c. forkPointNumber c = number obj - 1 \<and> forkPointHash c = previousHash obj"
  from assms have bc: "basedCore st obj = map_option CoreContext (find ?P (st_cores st))"
    by (simp add: basedCore_def getCore_def)
  have a: "basedCore st obj \<noteq> None \<longleftrightarrow> (\<exists>c\<in>set (st_cores st). ?P c)"
    unfolding bc by (auto simp: find_None_iff)
  have b: "\<forall>based. basedCore st obj = Some based \<longrightarrow>
            (\<exists>c\<in>set (st_cores st). based = CoreContext c \<and> ?P c)"
    unfolding bc by (auto simp: find_Some_iff)
  have c: "basedCore st obj = None \<longrightarrow>
            submitBlock ops forkWindowSize st obj doCheck = (Inl ErrPreviousNotFound, st)"
    by (simp add: submitBlock_def)
  from a b c show ?thesis by (intro conjI)
qed

theorem submitBlock_parent_among_cores_witness:
  "st_cores (submitAll acceptingOps 3 confirmedAt10 [b11a]) \<noteq> []
   \<and> basedCore (submitAll acceptingOps 3 confirmedAt10 [b11a]) b12a
       = Some (CoreContext (coreAt 11 ''A11'' ''H10''))
   \<and> basedCore (submitAll acceptingOps 3 confirmedAt10 [b11a]) b13a = None
   \<and> submitBlock acceptingOps 3 (submitAll acceptingOps 3 confirmedAt10 [b11a]) b13a True
       = (Inl ErrPreviousNotFound, submitAll acceptingOps 3 confirmedAt10 [b11a])"
proof -
  let ?st = "submitAll acceptingOps 3 confirmedAt10 [b11a]"
  have cs: "st_cores ?st = [coreAt 11 ''A11'' ''H10'']"
    by (simp add: submitAll_def first_core)
  then have ne: "st_cores ?st \<noteq> []" by simp
  have n13: "\<not> (\<exists>c\<in>set (st_cores ?st). forkPointNumber c = number b13a - 1
                                     \<and> forkPointHash c = previousHash b13a)"
    unfolding cs by (simp add: b13a_def)
  have y12: "\<exists>c\<in>set (st_cores ?st). forkPointNumber c = number b12a - 1
                                     \<and> forkPointHash c = previousHash b12a"
    unfolding cs by (simp add: b12a_def)
  from submitBlock_parent_among_cores [OF ne, of b13a acceptingOps 3 True] n13
  have r13: "basedCore ?st b13a = None"
    and e13: "submitBlock acceptingOps 3 ?st b13a True = (Inl ErrPreviousNotFound, ?st)"
    by blast+
  from submitBlock_parent_among_cores [OF ne, of b12a acceptingOps 3 True] y12
  obtain based where "basedCore ?st b12a = Some based"
    and "\<exists>c\<in>set (st_cores ?st). based = CoreContext c" by blast
  then have r12: "basedCore ?st b12a = Some (CoreContext (coreAt 11 ''A11'' ''H10''))"
    unfolding cs by simp
  from ne r12 r13 e13 show ?thesis by (intro conjI)
qed


text \<open>
  C4, as stated, fails: with the core \<open>A11\<close> in place, the block \<open>B11\<close> whose parent is the
  confirmed tip (number 10, hash \<open>H10\<close>) finds no parent and is refused.
\<close>

theorem submitBlock_ignores_confirmed_tip:
  "st_cores (submitAll acceptingOps 3 confirmedAt10 [b11a]) = [coreAt 11 ''A11'' ''H10'']
   \<and> getCurrentBlockOrNull (submitAll acceptingOps 3 confirmedAt10 [b11a]) = Some b10
   \<and> number b10 = number b11b - 1
   \<and> hash b10 = previousHash b11b
   \<and> basedCore (submitAll acceptingOps 3 confirmedAt10 [b11a]) b11b = None
   \<and> submitBlock acceptingOps 3 (submitAll acceptingOps 3 confirmedAt10 [b11a]) b11b True
       = (Inl ErrPreviousNotFound, submitAll acceptingOps 3 confirmedAt10 [b11a])"
  by (simp add: submitAll_def first_core)
     (simp add: fork_defs b10_def b11b_def)

text \<open>
  C3, on the cores left by \<open>A11\<close>, \<open>A12\<close>, \<open>B12\<close>, \<open>B13\<close>, \<open>A13\<close> with a window of 2
  (\<open>A11\<close> is confirmed by then): the submission of \<open>A14\<close> promotes \<open>A12\<close>. The core \<open>B13\<close>
  is an orphan of \<open>A12\<close> (it stands at height 13 on \<open>B12\<close>) and \<^verbatim>\<open>pruneForks\<close> goes through it,
  and through \<open>A14\<close> after it, but both are still among the cores afterwards, with \<open>B12\<close>.
\<close>

theorem pruneForks_leaves_orphans:
  "submitAll acceptingOps 2 confirmedAt10 [b11a, b12a, b12b, b13b, b13a]
     = \<lparr> st_cores = [coreAt 12 ''A12'' ''A11'', coreAt 12 ''B12'' ''A11'',
                     coreAt 13 ''B13'' ''B12'', coreAt 13 ''A13'' ''A12''],
         st_chain = [b10, b11a] \<rparr>
   \<and> submitBlock acceptingOps 2
        (submitAll acceptingOps 2 confirmedAt10 [b11a, b12a, b12b, b13b, b13a]) b14a True
     = (Inr b14a,
        \<lparr> st_cores = [coreAt 12 ''B12'' ''A11'', coreAt 13 ''B13'' ''B12'',
                      coreAt 13 ''A13'' ''A12'', coreAt 14 ''A14'' ''A13''],
          st_chain = [b10, b11a, b12a] \<rparr>)
   \<and> isOrphanOf (coreAt 12 ''A12'' ''A11'') (coreAt 13 ''B13'' ''B12'')
   \<and> pruneForks (coreAt 12 ''A12'' ''A11'')
        [coreAt 12 ''B12'' ''A11'', coreAt 13 ''B13'' ''B12'',
         coreAt 13 ''A13'' ''A12'', coreAt 14 ''A14'' ''A13'']
     = [coreAt 13 ''B13'' ''B12'', coreAt 14 ''A14'' ''A13'']"
  by (simp add: submitAll_def line_step1 line_step2 line_step3 line_step4 line_step5 line_step6
      visit_A12 isOrphanOf_def)




text \<open>
  The order of the cores is kept by the promotion of cores, by the step "Shift" and by a
  checked submission, where a context returns the block it adds with its number and the
  main context accepts a block only with the number that follows the confirmed tip. In such a
  state the highest core stands above the tip and its branch is found down to the tip.
\<close>

lemma getCore_Some:
  "getCore cores n h = Some p \<Longrightarrow> p \<in> set cores \<and> forkPointNumber p = n \<and> forkPointHash p = h"
  by (auto simp: getCore_def find_Some_iff)

lemma getCore_found:
  "p \<in> set cores \<Longrightarrow> forkPointNumber p = n \<Longrightarrow> forkPointHash p = h \<Longrightarrow> getCore cores n h \<noteq> None"
  by (auto simp: getCore_def find_None_iff)

lemma collectBranch_shape:
  "collectBranch cores k currentTop branch = Inr found \<Longrightarrow>
     \<exists>ext. found = branch @ ext \<and> length ext = k \<and> set ext \<subseteq> set cores
         \<and> (\<forall>i<k. forkPointNumber (ext ! i) = forkPointNumber currentTop - 1 - int i)"
proof (induction k arbitrary: currentTop branch)
  case 0
  then show ?case by simp
next
  case (Suc k)
  from Suc.prems obtain parent where
    p: "getCore cores (forkPointNumber currentTop - 1) (forkPointPreviousHash currentTop) = Some parent"
    and r: "collectBranch cores k parent (branch @ [parent]) = Inr found"
    by (auto split: option.splits)
  from getCore_Some [OF p] have pin: "parent \<in> set cores"
    and pn: "forkPointNumber parent = forkPointNumber currentTop - 1" by simp_all
  from Suc.IH [OF r] obtain ext where
    f: "found = (branch @ [parent]) @ ext" and l: "length ext = k" and s: "set ext \<subseteq> set cores"
    and h: "\<forall>i<k. forkPointNumber (ext ! i) = forkPointNumber parent - 1 - int i" by blast
  have "\<forall>i<Suc k. forkPointNumber ((parent # ext) ! i) = forkPointNumber currentTop - 1 - int i"
  proof (intro allI impI)
    fix i assume i: "i < Suc k"
    show "forkPointNumber ((parent # ext) ! i) = forkPointNumber currentTop - 1 - int i"
    proof (cases i)
      case 0
      with pn show ?thesis by simp
    next
      case (Suc j)
      with i h pn show ?thesis by simp
    qed
  qed
  with f l s pin show ?case by (intro exI [of _ "parent # ext"]) simp
qed



lemma promoteAll_wellStacked:
  assumes same: "\<forall>ctx st b dc blk. addBlock ops ctx st b dc = Inr blk \<longrightarrow> number blk = number b"
  shows "\<lbrakk> \<forall>c\<in>set (st_cores st). number (coreCurrent c) = forkPointNumber c;
           L \<in> set (st_cores st);
           \<forall>c\<in>set cs. forkPointNumber c < forkPointNumber L;
           (case getCurrentBlockOrNull st of None \<Rightarrow> True
            | Some cur \<Rightarrow> number cur < forkPointNumber L);
           set cs \<subseteq> set (st_cores st);
           sorted_wrt (\<lambda>a b. forkPointNumber a < forkPointNumber b) cs;
           \<forall>c\<in>set cs. (case getCurrentBlockOrNull st of None \<Rightarrow> 0 \<le> forkPointNumber c
                         | Some cur \<Rightarrow> number cur \<le> forkPointNumber c);
           \<forall>c\<in>set (st_cores st).
              (case getCurrentBlockOrNull st of
                 None \<Rightarrow> 0 < forkPointNumber c
               | Some cur \<Rightarrow> number cur + 1 < forkPointNumber c) \<longrightarrow>
              getCore (st_cores st) (forkPointNumber c - 1) (forkPointPreviousHash c) \<noteq> None \<rbrakk>
         \<Longrightarrow> wellStacked (snd (promoteAll ops doCheck cs st))"
proof (induction cs arbitrary: st)
  case Nil
  from Nil.prems(1,2,4,8) show ?case
    by (auto simp: wellStacked_def split: option.splits)
next
  case (Cons c rest)
  note nums = Cons.prems(1) and Lin = Cons.prems(2) and below = Cons.prems(3)
    and tip = Cons.prems(4) and sub = Cons.prems(5) and srt = Cons.prems(6)
    and floor = Cons.prems(7) and parents = Cons.prems(8)
  show ?case
  proof (cases "addBlock ops MainContext st (coreCurrent c) doCheck")
    case (Inl err)
    then have "promoteAll ops doCheck (c # rest) st = (Some err, st)"
      by (simp add: promoteCore_def)
    moreover from nums Lin tip parents have "wellStacked st"
      by (auto simp: wellStacked_def split: option.splits)
    ultimately show ?thesis by simp
  next
    case (Inr blk)
    define st' where "st' = st\<lparr>st_chain := st_chain st @ [blk],
                                st_cores := remove1 c (st_cores st)\<rparr>"
    from sub have cin: "c \<in> set (st_cores st)" by simp
    with Inr have step: "promoteAll ops doCheck (c # rest) st = promoteAll ops doCheck rest st'"
      by (simp add: promoteCore_def spliceOut_def st'_def)
    from same Inr have "number blk = number (coreCurrent c)" by blast
    with nums cin have nb: "number blk = forkPointNumber c" by simp
    have tip': "getCurrentBlockOrNull st' = Some blk"
      by (simp add: getCurrentBlockOrNull_def st'_def)
    have cores': "st_cores st' = remove1 c (st_cores st)" by (simp add: st'_def)
    from srt have above: "\<forall>d\<in>set rest. forkPointNumber c < forkPointNumber d"
      and srt': "sorted_wrt (\<lambda>a b. forkPointNumber a < forkPointNumber b) rest" by simp_all
    have kept: "d \<in> set (st_cores st')" if "d \<in> set (st_cores st)" and "forkPointNumber c < forkPointNumber d" for d
    proof -
      from that(2) have "d \<noteq> c" by auto
      with that(1) show ?thesis by (simp add: cores')
    qed
    have 1: "\<forall>d\<in>set (st_cores st'). number (coreCurrent d) = forkPointNumber d"
      using nums notin_set_remove1 [of _ "st_cores st" c] unfolding cores' by blast
    from below have cL: "forkPointNumber c < forkPointNumber L" by simp
    have 2: "L \<in> set (st_cores st')" using kept [OF Lin cL] .
    from below have 3: "\<forall>d\<in>set rest. forkPointNumber d < forkPointNumber L" by simp
    have 4: "(case getCurrentBlockOrNull st' of None \<Rightarrow> True
              | Some cur \<Rightarrow> number cur < forkPointNumber L)"
      using cL by (simp add: tip' nb)
    have 5: "set rest \<subseteq> set (st_cores st')"
    proof
      fix d assume d: "d \<in> set rest"
      with sub have "d \<in> set (st_cores st)" by auto
      moreover from above d have "forkPointNumber c < forkPointNumber d" by simp
      ultimately show "d \<in> set (st_cores st')" by (rule kept)
    qed
    have 7: "\<forall>d\<in>set rest. (case getCurrentBlockOrNull st' of None \<Rightarrow> 0 \<le> forkPointNumber d
                         | Some cur \<Rightarrow> number cur \<le> forkPointNumber d)"
      using above by (auto simp: tip' nb)
    have 8: "\<forall>d\<in>set (st_cores st').
              (case getCurrentBlockOrNull st' of
                 None \<Rightarrow> 0 < forkPointNumber d
               | Some cur \<Rightarrow> number cur + 1 < forkPointNumber d) \<longrightarrow>
              getCore (st_cores st') (forkPointNumber d - 1) (forkPointPreviousHash d) \<noteq> None"
    proof (intro ballI impI)
      fix d assume d: "d \<in> set (st_cores st')"
        and "(case getCurrentBlockOrNull st' of
                 None \<Rightarrow> 0 < forkPointNumber d
               | Some cur \<Rightarrow> number cur + 1 < forkPointNumber d)"
      then have far: "forkPointNumber c + 1 < forkPointNumber d" by (simp add: tip' nb)
      from d have din: "d \<in> set (st_cores st)"
        using notin_set_remove1 [of d "st_cores st" c] unfolding cores' by blast
      from floor have "(case getCurrentBlockOrNull st of None \<Rightarrow> 0 \<le> forkPointNumber c
                         | Some cur \<Rightarrow> number cur \<le> forkPointNumber c)" by simp
      with far have "(case getCurrentBlockOrNull st of
                 None \<Rightarrow> 0 < forkPointNumber d
               | Some cur \<Rightarrow> number cur + 1 < forkPointNumber d)"
        by (auto split: option.splits)
      with parents din obtain p where
        p: "getCore (st_cores st) (forkPointNumber d - 1) (forkPointPreviousHash d) = Some p"
        by blast
      from getCore_Some [OF p] have pin: "p \<in> set (st_cores st)"
        and pn: "forkPointNumber p = forkPointNumber d - 1"
        and ph: "forkPointHash p = forkPointPreviousHash d" by simp_all
      from pn far have "forkPointNumber c < forkPointNumber p" by simp
      from kept [OF pin this] have "p \<in> set (st_cores st')" .
      from getCore_found [OF this pn ph]
      show "getCore (st_cores st') (forkPointNumber d - 1) (forkPointPreviousHash d) \<noteq> None" .
    qed
    from Cons.IH [OF 1 2 3 4 5 srt' 7 8] step show ?thesis by simp
  qed
qed


lemma distinct_map_insort_key:
  "distinct (map f (insort_key f x xs)) \<longleftrightarrow> f x \<notin> f ` set xs \<and> distinct (map f xs)"
  by (induction xs) (auto simp: set_insort_key)

lemma distinct_map_sort_key: "distinct (map f (sort_key f xs)) \<longleftrightarrow> distinct (map f xs)"
  by (induction xs) (simp_all add: distinct_map_insort_key)

lemma sort_key_strict:
  assumes "distinct (map f xs)"
  shows "sorted_wrt (\<lambda>a b. f a < f b) (sort_key f xs)"
proof -
  from assms have "distinct (map f (sort_key f xs))" by (simp only: distinct_map_sort_key)
  moreover have "sorted (map f (sort_key f xs))" by simp
  ultimately have "sorted_wrt (<) (map f (sort_key f xs))" by (simp add: strict_sorted_iff)
  then show ?thesis by (simp add: sorted_wrt_map)
qed

lemma wellStacked_highest_above:
  assumes ws: "wellStacked st" and Lin: "L \<in> set (st_cores st)"
    and top: "\<forall>c\<in>set (st_cores st). forkPointNumber c \<le> forkPointNumber L"
  shows "(case getCurrentBlockOrNull st of None \<Rightarrow> True
          | Some cur \<Rightarrow> number cur < forkPointNumber L)"
proof (cases "getCurrentBlockOrNull st")
  case None
  then show ?thesis by simp
next
  case (Some cur)
  from Lin have "st_cores st \<noteq> []" by auto
  with ws Some obtain c where "c \<in> set (st_cores st)" and "number cur < forkPointNumber c"
    by (auto simp: wellStacked_def)
  with top have "number cur < forkPointNumber L" by force
  with Some show ?thesis by simp
qed

lemma startPruning_wellStacked:
  assumes same: "\<forall>ctx st b dc blk. addBlock ops ctx st b dc = Inr blk \<longrightarrow> number blk = number b"
    and W: "1 \<le> W"
    and ws: "wellStacked st" and Lin: "L \<in> set (st_cores st)"
    and top: "\<forall>c\<in>set (st_cores st). forkPointNumber c \<le> forkPointNumber L"
  shows "wellStacked (snd (startPruning ops L st (getCurrentBlockOrNull st) W doCheck))"
proof -
  let ?cur = "getCurrentBlockOrNull st"
  let ?bs = "branchSize L ?cur"
  define k where "k = nat (?bs - 1)"
  define n where "n = nat (toPruneCount L ?cur W)"
  note tip = wellStacked_highest_above [OF ws Lin top]
  have bs: "?bs = (case ?cur of None \<Rightarrow> forkPointNumber L + 1
                   | Some cur \<Rightarrow> forkPointNumber L - number cur)"
    using tip by (auto simp: branchSize_def split: option.splits)
  show ?thesis
  proof (cases "toPruneCount L ?cur W = 0")
    case True
    with ws show ?thesis by (simp add: startPruning_def)
  next
    case False
    then have over: "W < ?bs" by (simp add: toPruneCount_def max_def split: if_splits)
    then have "n = nat (?bs - W)" by (simp add: n_def toPruneCount_def max_def)
    with over W have nk: "n \<le> k" by (simp add: k_def)
    from over W have kbs: "int k = ?bs - 1" by (simp add: k_def)
    show ?thesis
    proof (cases "collectBranch (st_cores st) k L [L]")
      case (Inl err)
      with False ws show ?thesis by (simp add: startPruning_def k_def)
    next
      case (Inr branch)
      define ys where "ys = sort_key forkPointNumber branch"
      define pruned where "pruned = take n ys"
      from False Inr have run: "startPruning ops L st ?cur W doCheck
          = promoteAll ops doCheck pruned st"
        by (simp add: startPruning_def Let_def sortBy_def k_def n_def ys_def pruned_def)
      from collectBranch_shape [OF Inr] obtain ext where
        br: "branch = [L] @ ext" and len: "length ext = k" and sub: "set ext \<subseteq> set (st_cores st)"
        and hs: "\<forall>i<k. forkPointNumber (ext ! i) = forkPointNumber L - 1 - int i" by blast
      have height: "forkPointNumber (branch ! j) = forkPointNumber L - int j" if "j \<le> k" for j
      proof (cases j)
        case 0
        then show ?thesis by (simp add: br)
      next
        case (Suc i)
        with that hs show ?thesis by (simp add: br)
      qed
      have lb: "length branch = Suc k" by (simp add: br len)
      have "distinct (map forkPointNumber branch)"
        unfolding distinct_conv_nth
      proof (intro allI impI)
        fix i j assume "i < length (map forkPointNumber branch)"
          and "j < length (map forkPointNumber branch)" and "i \<noteq> j"
        then have "i \<le> k" "j \<le> k" "int i \<noteq> int j" by (simp_all add: lb)
        with height [of i] height [of j]
        show "map forkPointNumber branch ! i \<noteq> map forkPointNumber branch ! j"
          by (simp add: lb)
      qed
      from sort_key_strict [OF this]
      have strict: "sorted_wrt (\<lambda>a b. forkPointNumber a < forkPointNumber b) ys"
        by (simp add: ys_def)
      have sy: "set ys = set branch" by (simp add: ys_def)
      have ly: "length ys = Suc k" by (simp add: lb ys_def)
      have inb: "c \<in> set (st_cores st)" if "c \<in> set branch" for c
        using that sub Lin by (auto simp: br)
      have low: "forkPointNumber L - int k \<le> forkPointNumber c" if "c \<in> set branch" for c
      proof -
        from that obtain j where j: "j < length branch" and c: "c = branch ! j"
          by (auto simp: in_set_conv_nth)
        from j have jk: "j \<le> k" by (simp add: lb)
        from height [OF jk] jk show ?thesis by (simp add: c)
      qed
      have 3: "\<forall>c\<in>set pruned. forkPointNumber c < forkPointNumber L"
      proof
        fix c assume "c \<in> set pruned"
        then obtain i where i: "i < n" and c: "c = ys ! i"
          by (auto simp: pruned_def in_set_conv_nth)
        from i nk have ik: "i < k" by simp
        from sorted_wrt_nth_less [OF strict, of i k] ik
        have "forkPointNumber (ys ! i) < forkPointNumber (ys ! k)" by (simp add: ly)
        moreover have "ys ! k \<in> set ys" by (rule nth_mem) (simp add: ly)
        then have "ys ! k \<in> set (st_cores st)" using inb by (simp only: sy)
        with top have "forkPointNumber (ys ! k) \<le> forkPointNumber L" by blast
        ultimately show "forkPointNumber c < forkPointNumber L" by (simp add: c)
      qed
      have pb: "set pruned \<subseteq> set branch"
        using set_take_subset [of n ys] by (simp only: sy pruned_def)
      have 5: "set pruned \<subseteq> set (st_cores st)" using pb inb by blast
      have 6: "sorted_wrt (\<lambda>a b. forkPointNumber a < forkPointNumber b) pruned"
        unfolding pruned_def using strict by (rule sorted_wrt_take)
      have 7: "\<forall>c\<in>set pruned. (case ?cur of None \<Rightarrow> 0 \<le> forkPointNumber c
                         | Some cur \<Rightarrow> number cur \<le> forkPointNumber c)"
      proof
        fix c assume "c \<in> set pruned"
        with pb have "c \<in> set branch" by blast
        from low [OF this] kbs bs
        show "(case ?cur of None \<Rightarrow> 0 \<le> forkPointNumber c
                         | Some cur \<Rightarrow> number cur \<le> forkPointNumber c)"
          by (auto split: option.splits)
      qed
      from ws have 1: "\<forall>c\<in>set (st_cores st). number (coreCurrent c) = forkPointNumber c"
        and 8: "\<forall>c\<in>set (st_cores st).
              (case ?cur of
                 None \<Rightarrow> 0 < forkPointNumber c
               | Some cur \<Rightarrow> number cur + 1 < forkPointNumber c) \<longrightarrow>
              getCore (st_cores st) (forkPointNumber c - 1) (forkPointPreviousHash c) \<noteq> None"
        by (simp_all add: wellStacked_def)
      from promoteAll_wellStacked [OF same 1 Lin 3 tip 5 6 7 8] run show ?thesis by simp
    qed
  qed
qed


lemma wellStacked_no_core: "st_cores st = [] \<Longrightarrow> wellStacked st"
  by (simp add: wellStacked_def split: option.splits)

lemma forkAndAddCore_wellStacked:
  assumes same: "\<forall>ctx st b dc blk. addBlock ops ctx st b dc = Inr blk \<longrightarrow> number blk = number b"
    and next_number: "\<forall>st b. checkBlock ops MainContext st b = None \<longrightarrow>
        number b = (case getCurrentBlockOrNull st of None \<Rightarrow> 0 | Some cur \<Rightarrow> number cur + 1)"
    and ws: "wellStacked st"
    and based: "basedCore st obj = Some based"
    and checked: "checkBlock ops based st obj = None"
    and added: "forkAndAddCore ops based st obj = Inr (blk, st1)"
  shows "wellStacked st1"
proof -
  define new where "new = \<lparr> forkPointNumber = number obj, forkPointHash = hash obj,
                    forkPointPreviousHash = previousHash obj, coreCurrent = blk \<rparr>"
  from added have ab: "addBlock ops based st obj False = Inr blk"
    and st1: "st1 = st\<lparr>st_cores := st_cores st @ [new]\<rparr>"
    by (auto simp: forkAndAddCore_def new_def split: sum.splits)
  from same ab have nb: "number blk = number obj" by blast
  have tip1: "getCurrentBlockOrNull st1 = getCurrentBlockOrNull st"
    by (simp add: st1 getCurrentBlockOrNull_def)
  have cores1: "st_cores st1 = st_cores st @ [new]" by (simp add: st1)
  have fresh: "number obj = (case getCurrentBlockOrNull st of None \<Rightarrow> 0 | Some cur \<Rightarrow> number cur + 1)"
    if "st_cores st = []"
  proof -
    from that based have "based = MainContext" by (simp add: basedCore_def)
    with checked next_number show ?thesis by blast
  qed
  have parent: "\<exists>p\<in>set (st_cores st). forkPointNumber p = number obj - 1
                  \<and> forkPointHash p = previousHash obj" if "st_cores st \<noteq> []"
  proof -
    from that based obtain p where "getCore (st_cores st) (number obj - 1) (previousHash obj) = Some p"
      by (auto simp: basedCore_def)
    from getCore_Some [OF this] show ?thesis by blast
  qed
  have 1: "\<forall>c\<in>set (st_cores st1). number (coreCurrent c) = forkPointNumber c"
    using ws nb by (auto simp: cores1 wellStacked_def new_def)
  have 2: "(case getCurrentBlockOrNull st1 of
         None \<Rightarrow> True
       | Some cur \<Rightarrow> st_cores st1 = [] \<or> (\<exists>c\<in>set (st_cores st1). number cur < forkPointNumber c))"
  proof (cases "getCurrentBlockOrNull st")
    case None
    then show ?thesis by (simp add: tip1)
  next
    case (Some cur)
    show ?thesis
    proof (cases "st_cores st = []")
      case True
      from fresh [OF True] Some have "number cur < forkPointNumber new" by (simp add: new_def)
      with Some show ?thesis by (simp add: tip1 cores1)
    next
      case False
      with ws Some obtain c where "c \<in> set (st_cores st)" "number cur < forkPointNumber c"
        by (auto simp: wellStacked_def)
      with Some show ?thesis by (auto simp: tip1 cores1)
    qed
  qed
  have 3: "\<forall>c\<in>set (st_cores st1).
         (case getCurrentBlockOrNull st1 of
            None \<Rightarrow> 0 < forkPointNumber c
          | Some cur \<Rightarrow> number cur + 1 < forkPointNumber c) \<longrightarrow>
         getCore (st_cores st1) (forkPointNumber c - 1) (forkPointPreviousHash c) \<noteq> None"
  proof (intro ballI impI)
    fix c assume c: "c \<in> set (st_cores st1)"
      and far: "(case getCurrentBlockOrNull st1 of
            None \<Rightarrow> 0 < forkPointNumber c
          | Some cur \<Rightarrow> number cur + 1 < forkPointNumber c)"
    have "\<exists>p\<in>set (st_cores st). forkPointNumber p = forkPointNumber c - 1
                  \<and> forkPointHash p = forkPointPreviousHash c"
    proof (cases "c \<in> set (st_cores st)")
      case True
      with ws far obtain p where
        "getCore (st_cores st) (forkPointNumber c - 1) (forkPointPreviousHash c) = Some p"
        by (auto simp: wellStacked_def tip1)
      from getCore_Some [OF this] show ?thesis by blast
    next
      case False
      with c have cn: "c = new" by (simp add: cores1)
      have "st_cores st \<noteq> []"
      proof
        assume "st_cores st = []"
        from fresh [OF this] far show False
          by (auto simp: cn new_def tip1 split: option.splits)
      qed
      from parent [OF this] show ?thesis by (simp add: cn new_def)
    qed
    then obtain p where "p \<in> set (st_cores st1)" "forkPointNumber p = forkPointNumber c - 1"
      "forkPointHash p = forkPointPreviousHash c" by (auto simp: cores1)
    then show "getCore (st_cores st1) (forkPointNumber c - 1) (forkPointPreviousHash c) \<noteq> None"
      by (rule getCore_found)
  qed
  from 1 2 3 show ?thesis unfolding wellStacked_def by (intro conjI)
qed

lemma shift_wellStacked:
  assumes same: "\<forall>ctx st b dc blk. addBlock ops ctx st b dc = Inr blk \<longrightarrow> number blk = number b"
    and W: "1 \<le> W" and ws: "wellStacked st"
  shows "wellStacked (snd (shift ops W st doCheck))"
proof (cases "underscore_max forkPointNumber (st_cores st)")
  case None
  with ws show ?thesis by (simp add: shift_def)
next
  case (Some m)
  then have ne: "st_cores st \<noteq> []" by auto
  from underscore_max_Some [OF ne, of forkPointNumber] Some
  have top: "\<forall>c\<in>set (st_cores st). forkPointNumber c \<le> forkPointNumber m" by auto
  let ?highest = "filter (\<lambda>c. forkPointNumber c = forkPointNumber m) (st_cores st)"
  show ?thesis
  proof (cases ?highest)
    case Nil
    with Some ws show ?thesis by (simp add: shift_def Let_def)
  next
    case (Cons L more)
    show ?thesis
    proof (cases more)
      case Nil
      with Cons have one: "?highest = [L]" by simp
      then have "L \<in> set ?highest" by simp
      then have Lin: "L \<in> set (st_cores st)" and Lm: "forkPointNumber L = forkPointNumber m"
        by simp_all
      from top Lm have top': "\<forall>c\<in>set (st_cores st). forkPointNumber c \<le> forkPointNumber L"
        by simp
      from Some one have "shift ops W st doCheck
          = startPruning ops L st (getCurrentBlockOrNull st) W doCheck"
        by (simp add: shift_def Let_def)
      with startPruning_wellStacked [OF same W ws Lin top'] show ?thesis by simp
    next
      case (Cons L' more')
      with \<open>?highest = L # more\<close> Some ws show ?thesis by (simp add: shift_def Let_def)
    qed
  qed
qed

lemma submitBlock_wellStacked:
  assumes same: "\<forall>ctx st b dc blk. addBlock ops ctx st b dc = Inr blk \<longrightarrow> number blk = number b"
    and next_number: "\<forall>st b. checkBlock ops MainContext st b = None \<longrightarrow>
        number b = (case getCurrentBlockOrNull st of None \<Rightarrow> 0 | Some cur \<Rightarrow> number cur + 1)"
    and W: "1 \<le> W" and ws: "wellStacked st"
  shows "wellStacked (snd (submitBlock ops W st obj True))"
proof (cases "basedCore st obj")
  case None
  with ws show ?thesis by (simp add: submitBlock_def)
next
  case (Some based)
  show ?thesis
  proof (cases "checkBlock ops based st obj")
    case (Some err)
    with \<open>basedCore st obj = Some based\<close> ws show ?thesis by (simp add: submitBlock_def)
  next
    case None
    show ?thesis
    proof (cases "forkAndAddCore ops based st obj")
      case (Inl err)
      with None \<open>basedCore st obj = Some based\<close> W ws show ?thesis
        by (simp add: submitBlock_def)
    next
      case (Inr r)
      obtain blk st1 where r: "r = (blk, st1)" by (cases r)
      from forkAndAddCore_wellStacked [OF same next_number ws \<open>basedCore st obj = Some based\<close> None]
        Inr r
      have "wellStacked st1" by simp
      from shift_wellStacked [OF same W this]
      have "wellStacked (snd (shift ops W st1 True))" .
      moreover have "snd (submitBlock ops W st obj True) = snd (shift ops W st1 True)"
        using None \<open>basedCore st obj = Some based\<close> W Inr r
        by (simp add: submitBlock_def split: prod.splits option.splits)
      ultimately show ?thesis by simp
    qed
  qed
qed

lemma submitAll_wellStacked:
  assumes same: "\<forall>ctx st b dc blk. addBlock ops ctx st b dc = Inr blk \<longrightarrow> number blk = number b"
    and next_number: "\<forall>st b. checkBlock ops MainContext st b = None \<longrightarrow>
        number b = (case getCurrentBlockOrNull st of None \<Rightarrow> 0 | Some cur \<Rightarrow> number cur + 1)"
    and W: "1 \<le> W"
  shows "wellStacked st \<Longrightarrow> wellStacked (submitAll ops W st blks)"
proof (induction blks arbitrary: st)
  case Nil
  then show ?case by (simp add: submitAll_def)
next
  case (Cons b blks)
  from submitBlock_wellStacked [OF same next_number W Cons.prems]
  have "wellStacked (snd (submitBlock ops W st b True))" .
  from Cons.IH [OF this] show ?case by (simp add: submitAll_def)
qed




text \<open>
  With contexts that check the number of a block, every list of submissions on the confirmed
  chain of the sample leaves the cores in order.
\<close>

lemma sequencingOps_wellStacked:
  "wellStacked (submitAll sequencingOps 2 confirmedAt10 blks)"
proof -
  have same: "\<forall>ctx st b dc blk. addBlock sequencingOps ctx st b dc = Inr blk \<longrightarrow> number blk = number b"
    by (simp add: sequencingOps_def)
  have next_number: "\<forall>st b. checkBlock sequencingOps MainContext st b = None \<longrightarrow>
        number b = (case getCurrentBlockOrNull st of None \<Rightarrow> 0 | Some cur \<Rightarrow> number cur + 1)"
    by (simp add: sequencingOps_def)
  have "wellStacked confirmedAt10" by (rule wellStacked_no_core) (simp add: confirmedAt10_def)
  with submitAll_wellStacked [OF same next_number] show ?thesis by simp
qed

text \<open>
  At the height of the tip itself the difference is 0, which \<^verbatim>\<open>||\<close> takes for a missing
  tip; no state in order has its highest core there. With a window of 0 and no core, a
  submission goes to the confirmed chain and creates no core.
\<close>

lemma branchSize_at_tip_height:
  "forkPointNumber L = number cur \<Longrightarrow> branchSize L (Some cur) = forkPointNumber L + 1"
  by (simp add: branchSize_def)

lemma submitBlock_no_window:
  "st_cores st = [] \<Longrightarrow> st_cores (snd (submitBlock ops 0 st obj doCheck)) = []"
  by (simp add: submitBlock_def basedCore_def split: option.splits sum.splits)

section \<open>Properties of the proof-of-work worker\<close>

lemma blockAt_nonce [simp]: "nonce (blockAt n h p) = 0"
  by (simp add: blockAt_def newBlock_def)

lemmas pow_defs = onMessage_def prove_def releaseMemory_def cancelProof_def killProcess_def
  callOnPoWFound_def taskDoneCalled_def powFifoProcess_def stopPoWThenProcessAndRestartPoW_def
  newWorker_def truthy_def Let_def

lemma calibratedPow_eq:
  "calibratedPow =
     \<lparr> workers = [\<lparr> stopped = False, speedMesured = True, started = True, powProcess = Running,
                     onPoWFound = ProveListener \<rparr>],
       powWorker = Some 0, cancels = [], powFifo = [], powFifoRunning = False, computing = True,
       computeNextCallback = False,
       events = [WorkerCreated 0, RequestSent 0 ((blockAt 11 ''P11'' ''H10'')\<lparr>nonce := 0\<rparr>)] \<rparr>"
  by (simp add: calibratedPow_def idlePow_def calibrationMsg_def pow_defs)

lemma cancelAskedPow_eq:
  "cancelAskedPow = calibratedPow\<lparr>cancels := [7], powFifoRunning := True\<rparr>"
  by (simp add: cancelAskedPow_def calibratedPow_eq pow_defs)

text \<open>
  A request to cancel reaches \<^verbatim>\<open>cancels\<close> only when the queue starts its task: a message handled
  before that cancels nothing, and of two requests made in one turn the second waits in the
  queue until the first is confirmed.
\<close>

lemma request_waits_for_the_queue:
  "onMessage 1000 0 (stopPoWThenProcessAndRestartPoW True 7 calibratedPow) (progressMsg 500)
     = (None, calibratedPow\<lparr>powFifo := [7]\<rparr>)"
  by (simp add: calibratedPow_eq progressMsg_def pow_defs)

lemma two_requests_in_one_turn:
  "powFifoProcess (stopPoWThenProcessAndRestartPoW True 8
       (stopPoWThenProcessAndRestartPoW True 7 calibratedPow))
     = calibratedPow\<lparr>cancels := [7], powFifo := [8], powFifoRunning := True\<rparr>"
  by (simp add: calibratedPow_eq pow_defs)

text \<open>
  C8. In the handler of the messages of a worker: when a token is in \<^verbatim>\<open>cancels\<close>, the speed of
  that worker has been measured since it was created or last released (\<^verbatim>\<open>speedMesured\<close>), its
  process is there and \<^verbatim>\<open>prove\<close> has installed its listener on it, then a message that is no
  result and no calibration, and whose nonce does not exceed the nonce of its block by more
  than \<open>RELEASE_MEMORY\<close>, makes the handler kill the worker's process, resolve \<^verbatim>\<open>prove\<close> with
  null, take the first token out of \<^verbatim>\<open>cancels\<close> and confirm it; nothing else is confirmed and
  no error is thrown. The confirmation ends the task of \<^verbatim>\<open>powFifo\<close> that had pushed the token,
  so the first request waiting in \<^verbatim>\<open>powFifo\<close>, if any, pushes its own token.
\<close>

theorem onMessage_cancels_on_progress:
  assumes i: "i < length (workers s)"
    and nf: "\<not> msg_found msg" and nc: "\<not> truthy (msg_testsPerRound msg)"
    and blk: "msg_block msg = Some blk"
    and norel: "\<forall>n. msg_nonce msg = Some n \<longrightarrow> n \<le> nonce blk + RELEASE_MEMORY"
    and sp: "speedMesured (workers s ! i)"
    and tok: "cancels s = cancelConfirm # pending"
    and pr: "powProcess (workers s ! i) \<noteq> NoProcess"
    and li: "onPoWFound (workers s ! i) = ProveListener"
  shows "\<exists>s'. onMessage RELEASE_MEMORY i s msg = (None, s')
           \<and> events s' = events s @ [ProcessKilled i, ProveResolved None, CancelConfirmed cancelConfirm]
           \<and> cancels s' = pending @ take 1 (powFifo s)
           \<and> powFifo s' = drop 1 (powFifo s)
           \<and> powWorker s' = None
           \<and> workers s' = (workers s)[i := (workers s ! i)\<lparr>speedMesured := False, stopped := True,
                                powProcess := NoProcess, started := False\<rparr>]"
proof -
  from norel have norelease:
    "(case msg_nonce msg of None \<Rightarrow> None
      | Some n \<Rightarrow> if nonce blk + RELEASE_MEMORY < n then Some n else None) = None"
    by (cases "msg_nonce msg") auto
  show ?thesis
  proof (cases "powFifo s")
    case Nil
    with i nf nc blk sp tok pr li norelease show ?thesis
      by (cases "stopped (workers s ! i)")
         (simp_all add: onMessage_def cancelProof_def killProcess_def callOnPoWFound_def
            taskDoneCalled_def powFifoProcess_def Let_def)
  next
    case (Cons a waiting)
    with i nf nc blk sp tok pr li norelease show ?thesis
      by (cases "stopped (workers s ! i)")
         (simp_all add: onMessage_def cancelProof_def killProcess_def callOnPoWFound_def
            taskDoneCalled_def powFifoProcess_def Let_def)
  qed
qed

text \<open>
  A proof is asked, the worker reports its calibration, a block comes in and the queue starts
  the request to cancel; the next report of a nonce stops the proof.
\<close>

theorem onMessage_cancels_on_progress_witness:
  "0 < length (workers cancelAskedPow)
   \<and> \<not> msg_found (progressMsg 500) \<and> \<not> truthy (msg_testsPerRound (progressMsg 500))
   \<and> speedMesured (workers cancelAskedPow ! 0)
   \<and> cancels cancelAskedPow = [7]
   \<and> powProcess (workers cancelAskedPow ! 0) = Running
   \<and> onPoWFound (workers cancelAskedPow ! 0) = ProveListener
   \<and> onMessage 1000 0 cancelAskedPow (progressMsg 500)
       = (None, calibratedPow\<lparr>
            workers := [\<lparr> stopped = True, speedMesured = False, started = False,
                           powProcess = NoProcess, onPoWFound = ProveListener \<rparr>],
            powWorker := None, powFifoRunning := False,
            events := events calibratedPow
                        @ [ProcessKilled 0, ProveResolved None, CancelConfirmed 7]\<rparr>)"
proof -
  let ?s = cancelAskedPow
  let ?blk = "blockAt 11 ''P11'' ''H10''"
  have i: "0 < length (workers ?s)" by (simp add: cancelAskedPow_eq calibratedPow_eq)
  have h: "\<not> msg_found (progressMsg 500)" "\<not> truthy (msg_testsPerRound (progressMsg 500))"
    "msg_block (progressMsg 500) = Some ?blk"
    "\<forall>n. msg_nonce (progressMsg 500) = Some n \<longrightarrow> n \<le> nonce ?blk + 1000"
    by (simp_all add: progressMsg_def truthy_def)
  have g: "speedMesured (workers ?s ! 0)" "cancels ?s = 7 # []"
    "powProcess (workers ?s ! 0) \<noteq> NoProcess" "onPoWFound (workers ?s ! 0) = ProveListener"
    by (simp_all add: cancelAskedPow_eq calibratedPow_eq)
  have run: "powProcess (workers ?s ! 0) = Running"
    by (simp add: cancelAskedPow_eq calibratedPow_eq)
  from onMessage_cancels_on_progress [OF i h g] obtain s' where
    r: "onMessage 1000 0 ?s (progressMsg 500) = (None, s')"
    and e: "events s' = events ?s @ [ProcessKilled 0, ProveResolved None, CancelConfirmed 7]"
    and c: "cancels s' = [] @ take 1 (powFifo ?s)"
    and f: "powFifo s' = drop 1 (powFifo ?s)"
    and w: "powWorker s' = None"
    and ws: "workers s' = (workers ?s)[0 := (workers ?s ! 0)\<lparr>speedMesured := False,
                 stopped := True, powProcess := NoProcess, started := False\<rparr>]"
    by blast
  have "onMessage 1000 0 ?s (progressMsg 500)
       = (None, calibratedPow\<lparr>
            workers := [\<lparr> stopped = True, speedMesured = False, started = False,
                           powProcess = NoProcess, onPoWFound = ProveListener \<rparr>],
            powWorker := None, powFifoRunning := False,
            events := events calibratedPow
                        @ [ProcessKilled 0, ProveResolved None, CancelConfirmed 7]\<rparr>)"
    by (simp add: cancelAskedPow_eq calibratedPow_eq progressMsg_def pow_defs)
  with i h(1,2) g(1,2,4) run show ?thesis by simp
qed

text \<open>
  C8, as stated, fails: a progress message whose nonce is more than \<open>RELEASE_MEMORY\<close> above the
  nonce of its block takes the branch that replaces the worker. The measure of the speed is
  reset, \<^verbatim>\<open>prove\<close> is not resolved and the token stays in \<^verbatim>\<open>cancels\<close>; the next report of the
  worker, which does not release, cancels nothing either.
\<close>

theorem onMessage_release_defers_cancel:
  "\<not> msg_found (progressMsg 1001)
   \<and> \<not> truthy (msg_testsPerRound (progressMsg 1001))
   \<and> speedMesured (workers cancelAskedPow ! 0)
   \<and> cancels cancelAskedPow = [7]
   \<and> onMessage 1000 0 cancelAskedPow (progressMsg 1001)
       = (None, cancelAskedPow\<lparr>
            workers := [\<lparr> stopped = False, speedMesured = False, started = True,
                           powProcess = Killed, onPoWFound = ProveListener \<rparr>,
                        newWorker],
            powWorker := Some 1,
            events := events cancelAskedPow
                        @ [ProcessKilled 0, WorkerCreated 1,
                           RequestSent 0 ((blockAt 11 ''P11'' ''H10'')\<lparr>nonce := 1001\<rparr>)]\<rparr>)
   \<and> cancels (snd (onMessage 1000 0 cancelAskedPow (progressMsg 1001))) = [7]
   \<and> onMessage 1000 0 (snd (onMessage 1000 0 cancelAskedPow (progressMsg 1001))) (progressMsg 500)
       = (None, snd (onMessage 1000 0 cancelAskedPow (progressMsg 1001)))"
proof -
  have m: "\<not> msg_found (progressMsg 1001)" "\<not> truthy (msg_testsPerRound (progressMsg 1001))"
    by (simp_all add: progressMsg_def truthy_def)
  have g: "speedMesured (workers cancelAskedPow ! 0)" "cancels cancelAskedPow = [7]"
    by (simp_all add: cancelAskedPow_eq calibratedPow_eq)
  have r: "onMessage 1000 0 cancelAskedPow (progressMsg 1001)
       = (None, cancelAskedPow\<lparr>
            workers := [\<lparr> stopped = False, speedMesured = False, started = True,
                           powProcess = Killed, onPoWFound = ProveListener \<rparr>,
                        newWorker],
            powWorker := Some 1,
            events := events cancelAskedPow
                        @ [ProcessKilled 0, WorkerCreated 1,
                           RequestSent 0 ((blockAt 11 ''P11'' ''H10'')\<lparr>nonce := 1001\<rparr>)]\<rparr>)"
    by (simp add: cancelAskedPow_eq calibratedPow_eq progressMsg_def pow_defs)
  have c: "cancels (snd (onMessage 1000 0 cancelAskedPow (progressMsg 1001))) = [7]"
    by (simp add: r g)
  have n: "onMessage 1000 0 (snd (onMessage 1000 0 cancelAskedPow (progressMsg 1001))) (progressMsg 500)
       = (None, snd (onMessage 1000 0 cancelAskedPow (progressMsg 1001)))"
    unfolding r by (simp add: cancelAskedPow_eq calibratedPow_eq progressMsg_def pow_defs)
  from m g r c n show ?thesis by (intro conjI)
qed

end
